theory Spec2Isabelle
  imports Main "HOL-Library.Word" "HOL-Library.AList"
begin

unbundle bit_operations_syntax

section \<open>Data model\<close>

text \<open>
  The development follows \<^verbatim>\<open>scripts/extract_deck.py\<close>. A Python \<^verbatim>\<open>bytes\<close> value is a
  list of 8-bit words. Offsets into a buffer, decoded lengths and counters are never
  negative in the program (every offset starts at 0 and only grows), so they are natural
  numbers; Python's integers are unbounded, and so are these. A Python exception is a value
  of \<open>error\<close>, named after the exception class; a function that can raise returns
  \<open>error + 'a\<close> with \<open>Inl\<close> for the exception.

  The architecture document speaks of \<open>MalformedVarint\<close> where the code raises
  \<^verbatim>\<open>IndexError\<close> (a read past the end of the buffer), and of \<open>NoDatabaseFound\<close> where the
  code raises \<^verbatim>\<open>ValueError\<close>.

  A Python \<^verbatim>\<open>str\<close> is a list of Unicode code points, each a natural number; \<open>ustr\<close> turns
  a literal into one, character by character.
\<close>

type_synonym byte = "8 word"
type_synonym bytes = "byte list"
type_synonym pystr = "nat list"

definition ustr :: "string \<Rightarrow> pystr" where
  "ustr s = map of_char s"

datatype error =
    IndexError
  | UnicodeDecodeError
  | ZstdError
  | ValueError
  | FileNotFoundError
  | KeyError
  | DatabaseError

section \<open>The varint decoder\<close>

text \<open>
  \<^verbatim>\<open>_read_varint(data, pos)\<close>: the loop state is \<open>(pos, value, shift)\<close>. Reading
  \<^verbatim>\<open>data[pos]\<close> with \<open>pos\<close> at or past the end of the buffer raises \<^verbatim>\<open>IndexError\<close>; this
  is the only way out of the loop besides a byte whose high bit is clear.
\<close>

function read_varint_loop :: "bytes \<Rightarrow> nat \<Rightarrow> nat \<Rightarrow> nat \<Rightarrow> error + (nat \<times> nat)" where
  "read_varint_loop data pos val shift =
     (if length data \<le> pos then Inl IndexError
      else if data ! pos AND 0x80 \<noteq> 0
        then read_varint_loop data (pos + 1)
               (val OR push_bit shift (unat (data ! pos AND 0x7F))) (shift + 7)
      else Inr (val OR push_bit shift (unat (data ! pos AND 0x7F)), pos + 1))"
  by pat_completeness auto
termination
  by (relation "measure (\<lambda>(data, pos, val, shift). length data - pos)") auto

declare read_varint_loop.simps [simp del]

definition read_varint :: "bytes \<Rightarrow> nat \<Rightarrow> error + (nat \<times> nat)" where
  "read_varint data pos = read_varint_loop data pos 0 0"

text \<open>
  The value an unsigned little-endian base-128 varint denotes: the low seven bits of each
  byte, the first byte least significant.
\<close>

fun le_base128_value :: "bytes \<Rightarrow> nat" where
  "le_base128_value [] = 0"
| "le_base128_value (b # bs) = unat (b AND 0x7F) + 128 * le_base128_value bs"

text \<open>
  The reference encoder of the round-trip property. The repository has a decoder only;
  the encoder follows the architecture document's description of the format: seven bits
  per byte, least significant group first, the high bit set on every byte but the last.
\<close>

function ref_encode_varint :: "nat \<Rightarrow> bytes" where
  "ref_encode_varint n =
     (if n < 128 then [of_nat n]
      else (of_nat (n mod 128) OR 0x80) # ref_encode_varint (n div 128))"
  by pat_completeness auto
termination
  by (relation "measure (\<lambda>n. n)") auto

declare ref_encode_varint.simps [simp del]

section \<open>Bytes and bits\<close>

lemma low7_bound: "unat ((b::byte) AND 0x7F) < 128"
proof -
  have "unat (b AND 0x7F) \<le> unat (0x7F :: byte)"
    by (rule word_and_le1 [THEN word_le_nat_alt [THEN iffD1]])
  then show ?thesis by simp
qed

lemma no_high_bits: "v < 2 ^ s \<Longrightarrow> s \<le> n \<Longrightarrow> \<not> bit (v::nat) n"
proof -
  assume a: "v < 2 ^ s" "s \<le> n"
  have "(2::nat) ^ s \<le> 2 ^ n" using a(2) by simp
  with a(1) have "v < 2 ^ n" by linarith
  then show ?thesis by (simp add: bit_iff_odd)
qed

lemma or_push_add:
  assumes "v < 2 ^ s" shows "(v::nat) OR push_bit s x = v + 2 ^ s * x"
proof -
  have "v AND push_bit s x = 0"
    by (rule bit_eqI) (auto simp: bit_simps no_high_bits [OF assms])
  then have "v + push_bit s x = v OR push_bit s x"
    by (rule disjunctive_add_eq_or)
  then show ?thesis by (simp add: push_bit_eq_mult mult.commute)
qed

lemma and7F: "(w :: byte) AND 0x7F = take_bit 7 w"
  by (simp add: take_bit_eq_mask mask_eq_exp_minus_1)

lemma unat_low7: "unat ((w :: byte) AND 0x7F) = unat w mod 128"
  by (simp add: and7F take_bit_eq_mod unat_mod)

lemma and80: "((w :: byte) AND 0x80 = 0) = (\<not> bit w 7)"
proof -
  have "(0x80 :: byte) = 2 ^ 7" by simp
  then show ?thesis by (simp only: and_exp_eq_0_iff_not_bit)
qed

lemma bit7_unat: "bit (w :: byte) 7 = (128 \<le> unat w)"
proof -
  have lt: "unat w < 256" using unsigned_less [of w, where 'a=nat] by simp
  have "bit w 7 = bit (unat w) 7"
    by (simp add: bit_unsigned_iff)
  also have "\<dots> = odd (unat w div 128)"
    by (simp add: bit_iff_odd)
  also have "\<dots> = (128 \<le> unat w)"
  proof (cases "unat w < 128")
    case True
    then show ?thesis by simp
  next
    case False
    with lt have "unat w div 128 = 1" by simp
    with False show ?thesis by simp
  qed
  finally show ?thesis .
qed

lemma high_bit_iff: "((w :: byte) AND 0x80 = 0) = (unat w < 128)"
  by (simp add: and80 bit7_unat not_le)

section \<open>Properties of the varint decoder\<close>

lemma read_varint_loop_terminated:
  assumes "\<forall>b\<in>set cs. b AND 0x80 \<noteq> 0" and "t AND 0x80 = 0" and "v < 2 ^ s"
  shows "read_varint_loop (pre @ cs @ t # suf) (length pre) v s =
           Inr (v + 2 ^ s * le_base128_value (cs @ [t]), length pre + length cs + 1)"
  using assms
proof (induction cs arbitrary: pre v s)
  case Nil
  then show ?case
    by (subst read_varint_loop.simps) (simp add: or_push_add)
next
  case (Cons c cs)
  let ?v' = "v + 2 ^ s * unat (c AND 0x7F)"
  have c: "c AND 0x80 \<noteq> 0" using Cons.prems(1) by simp
  have "unat (c AND 0x7F) \<le> 127"
    using low7_bound [of c] by simp
  then have "2 ^ s * unat (c AND 0x7F) \<le> 2 ^ s * 127"
    by (rule mult_le_mono2)
  moreover have "(2::nat) ^ (s + 7) = 2 ^ s + 2 ^ s * 127"
    by (simp add: power_add)
  ultimately have bound: "?v' < 2 ^ (s + 7)"
    using Cons.prems(3) by linarith
  have step: "read_varint_loop (pre @ (c # cs) @ t # suf) (length pre) v s =
        read_varint_loop ((pre @ [c]) @ cs @ t # suf) (length (pre @ [c])) ?v' (s + 7)"
    using c Cons.prems(3) by (subst read_varint_loop.simps) (simp add: or_push_add)
  have "read_varint_loop ((pre @ [c]) @ cs @ t # suf) (length (pre @ [c])) ?v' (s + 7) =
        Inr (?v' + 2 ^ (s + 7) * le_base128_value (cs @ [t]), length (pre @ [c]) + length cs + 1)"
    using Cons.prems(1,2) bound by (intro Cons.IH) simp_all
  with step show ?case
    by (simp add: power_add algebra_simps)
qed

lemma read_varint_loop_unterminated:
  assumes "\<forall>b\<in>set cs. b AND 0x80 \<noteq> 0"
  shows "read_varint_loop (pre @ cs) (length pre) v s = Inl IndexError"
  using assms
proof (induction cs arbitrary: pre v s)
  case Nil
  then show ?case by (subst read_varint_loop.simps) simp
next
  case (Cons c cs)
  have "read_varint_loop (pre @ c # cs) (length pre) v s =
        read_varint_loop ((pre @ [c]) @ cs) (length (pre @ [c]))
          (v OR push_bit s (unat (c AND 0x7F))) (s + 7)"
    using Cons.prems by (subst read_varint_loop.simps) simp
  also have "\<dots> = Inl IndexError"
    using Cons.prems by (intro Cons.IH) simp
  finally show ?case .
qed

lemma read_varint_at_terminator:
  assumes "pos \<le> j" and "j < length data" and "data ! j AND 0x80 = 0"
    and "\<forall>i. pos \<le> i \<and> i < j \<longrightarrow> data ! i AND 0x80 \<noteq> 0"
  shows "read_varint data pos =
           Inr (le_base128_value (take (j + 1 - pos) (drop pos data)), j + 1)"
proof -
  define pre where "pre = take pos data"
  define cs where "cs = take (j - pos) (drop pos data)"
  define suf where "suf = drop (j + 1) data"
  have len_pre: "length pre = pos" and len_cs: "length cs = j - pos"
    using assms(1,2) by (simp_all add: pre_def cs_def)
  have "drop pos data = cs @ drop (j - pos) (drop pos data)"
    by (simp only: cs_def append_take_drop_id)
  also have "drop (j - pos) (drop pos data) = drop j data"
    using assms(1) by simp
  also have "drop j data = data ! j # suf"
    using assms(2) by (simp add: suf_def Cons_nth_drop_Suc)
  finally have tail: "drop pos data = cs @ data ! j # suf" .
  then have split: "data = pre @ cs @ data ! j # suf"
    unfolding pre_def by (metis append_take_drop_id)
  have high: "\<forall>b\<in>set cs. b AND 0x80 \<noteq> 0"
  proof
    fix b assume "b \<in> set cs"
    then obtain k where k: "k < length cs" "b = cs ! k"
      by (auto simp: in_set_conv_nth)
    then have b: "b = data ! (pos + k)"
      using assms(1,2) len_cs by (simp add: cs_def)
    have "pos \<le> pos + k \<and> pos + k < j"
      using k(1) len_cs by linarith
    with assms(4) have "data ! (pos + k) AND 0x80 \<noteq> 0" by blast
    with b show "b AND 0x80 \<noteq> 0" by simp
  qed
  have consumed: "take (j + 1 - pos) (drop pos data) = cs @ [data ! j]"
    using len_cs assms(1) by (simp add: tail Suc_diff_le)
  have "read_varint_loop (pre @ cs @ data ! j # suf) (length pre) 0 0 =
          Inr (0 + 2 ^ 0 * le_base128_value (cs @ [data ! j]), length pre + length cs + 1)"
    using high assms(3) by (intro read_varint_loop_terminated) simp_all
  then have "read_varint data pos = Inr (le_base128_value (cs @ [data ! j]), j + 1)"
    using assms(1) by (simp add: read_varint_def split [symmetric] len_pre len_cs)
  then show ?thesis
    by (simp only: consumed)
qed

lemma read_varint_unterminated:
  assumes "\<forall>b\<in>set (drop pos data). b AND 0x80 \<noteq> 0"
  shows "read_varint data pos = Inl IndexError"
proof (cases "pos \<le> length data")
  case True
  have "read_varint_loop (take pos data @ drop pos data) (length (take pos data)) 0 0 = Inl IndexError"
    using assms by (rule read_varint_loop_unterminated)
  with True show ?thesis by (simp add: read_varint_def)
next
  case False
  then show ?thesis
    by (simp add: read_varint_def read_varint_loop.simps)
qed

lemma first_terminator:
  assumes "\<not> (\<forall>b\<in>set (drop pos data). b AND 0x80 \<noteq> (0::byte))"
  shows "\<exists>j. pos \<le> j \<and> j < length data \<and> data ! j AND 0x80 = 0
           \<and> (\<forall>i. pos \<le> i \<and> i < j \<longrightarrow> data ! i AND 0x80 \<noteq> 0)"
proof -
  let ?T = "\<lambda>j. pos \<le> j \<and> j < length data \<and> data ! j AND 0x80 = 0"
  from assms obtain k where "k < length (drop pos data)" "drop pos data ! k AND 0x80 = 0"
    by (auto simp: in_set_conv_nth)
  then have "?T (pos + k)" by simp
  then have "?T (LEAST j. ?T j)" by (rule LeastI)
  moreover have "\<forall>i. pos \<le> i \<and> i < (LEAST j. ?T j) \<longrightarrow> data ! i AND 0x80 \<noteq> 0"
  proof (intro allI impI)
    fix i assume i: "pos \<le> i \<and> i < (LEAST j. ?T j)"
    then have "\<not> ?T i" using not_less_Least by blast
    moreover have "i < length data" using i \<open>?T (LEAST j. ?T j)\<close> by linarith
    ultimately show "data ! i AND 0x80 \<noteq> 0" using i by simp
  qed
  ultimately show ?thesis by blast
qed

lemma unat_small_byte: "n < 128 \<Longrightarrow> unat (of_nat n :: byte) = n"
  by (simp add: unat_of_nat)

lemma cont_byte_high: "(of_nat (n mod 128) OR 0x80 :: byte) AND 0x80 \<noteq> 0"
  by (simp add: and80 bit_simps)

lemma cont_byte_low: "unat ((of_nat (n mod 128) OR 0x80 :: byte) AND 0x7F) = n mod 128"
proof -
  have "(of_nat (n mod 128) OR 0x80 :: byte) AND 0x7F = of_nat (n mod 128) AND 0x7F"
    by (simp add: bit.conj_disj_distrib2)
  then show ?thesis
    by (simp add: unat_low7 unat_small_byte)
qed

lemma ref_encode_varint_shape:
  "\<exists>cs t. ref_encode_varint n = cs @ [t] \<and> (\<forall>b\<in>set cs. b AND 0x80 \<noteq> 0) \<and> t AND 0x80 = 0
      \<and> le_base128_value (cs @ [t]) = n"
proof (induction n rule: ref_encode_varint.induct)
  case (1 n)
  show ?case
  proof (cases "n < 128")
    case True
    then have "ref_encode_varint n = [] @ [of_nat n]"
      by (subst ref_encode_varint.simps) simp
    moreover have "(of_nat n :: byte) AND 0x80 = 0"
      using True by (simp add: high_bit_iff unat_small_byte)
    moreover have "le_base128_value ([] @ [of_nat n :: byte]) = n"
      using True by (simp add: unat_low7 unat_small_byte)
    ultimately have "ref_encode_varint n = [] @ [of_nat n] \<and> (\<forall>b\<in>set []. b AND (0x80::byte) \<noteq> 0)
        \<and> (of_nat n :: byte) AND 0x80 = 0 \<and> le_base128_value ([] @ [of_nat n :: byte]) = n"
      by simp
    then show ?thesis by (intro exI)
  next
    case False
    let ?c = "of_nat (n mod 128) OR 0x80 :: byte"
    from 1 False obtain cs t where
      IH: "ref_encode_varint (n div 128) = cs @ [t]" "\<forall>b\<in>set cs. b AND 0x80 \<noteq> 0"
        "t AND 0x80 = 0" "le_base128_value (cs @ [t]) = n div 128"
      by blast
    have "ref_encode_varint n = (?c # cs) @ [t]"
      using False IH(1) by (subst ref_encode_varint.simps) simp
    moreover have "\<forall>b\<in>set (?c # cs). b AND 0x80 \<noteq> 0"
      using IH(2) cont_byte_high by simp
    moreover have "le_base128_value ((?c # cs) @ [t]) = n"
      using IH(4) by (simp add: cont_byte_low)
    ultimately have "ref_encode_varint n = (?c # cs) @ [t] \<and> (\<forall>b\<in>set (?c # cs). b AND 0x80 \<noteq> 0)
        \<and> t AND 0x80 = 0 \<and> le_base128_value ((?c # cs) @ [t]) = n"
      using IH(3) by simp
    then show ?thesis by (intro exI)
  qed
qed

text \<open>
  C3. \<^verbatim>\<open>_read_varint\<close> fails, with \<^verbatim>\<open>IndexError\<close> and with nothing else, exactly when
  every byte from the start offset to the end of the buffer has its high bit set (so the
  offset runs past the end before a terminating byte is seen; a start offset at or past
  the end is the case of no bytes at all). Otherwise, with \<open>j\<close> the first offset at or
  after the start whose byte has the high bit clear, it returns the base-128 value of the
  bytes \<open>pos..j\<close> and the offset \<open>j + 1\<close> just past them.
\<close>

theorem read_varint_fails_exactly_when_unterminated:
  "(read_varint data pos = Inl IndexError \<longleftrightarrow> (\<forall>b\<in>set (drop pos data). b AND 0x80 \<noteq> 0))
   \<and> (\<forall>e. read_varint data pos = Inl e \<longrightarrow> e = IndexError)
   \<and> (\<forall>j. pos \<le> j \<and> j < length data \<and> data ! j AND 0x80 = 0
          \<and> (\<forall>i. pos \<le> i \<and> i < j \<longrightarrow> data ! i AND 0x80 \<noteq> 0)
        \<longrightarrow> read_varint data pos =
              Inr (le_base128_value (take (j + 1 - pos) (drop pos data)), j + 1))"
proof (intro conjI allI impI)
  show "read_varint data pos = Inl IndexError \<longleftrightarrow> (\<forall>b\<in>set (drop pos data). b AND 0x80 \<noteq> 0)"
  proof
    assume fails: "read_varint data pos = Inl IndexError"
    show "\<forall>b\<in>set (drop pos data). b AND 0x80 \<noteq> 0"
    proof (rule ccontr)
      assume "\<not> (\<forall>b\<in>set (drop pos data). b AND 0x80 \<noteq> 0)"
      then obtain j where "pos \<le> j" "j < length data" "data ! j AND 0x80 = 0"
        "\<forall>i. pos \<le> i \<and> i < j \<longrightarrow> data ! i AND 0x80 \<noteq> 0"
        using first_terminator by blast
      then have "read_varint data pos = Inr (le_base128_value (take (j + 1 - pos) (drop pos data)), j + 1)"
        by (rule read_varint_at_terminator)
      with fails show False by simp
    qed
  next
    assume "\<forall>b\<in>set (drop pos data). b AND 0x80 \<noteq> 0"
    then show "read_varint data pos = Inl IndexError" by (rule read_varint_unterminated)
  qed
next
  fix e assume e: "read_varint data pos = Inl e"
  show "e = IndexError"
  proof (cases "\<forall>b\<in>set (drop pos data). b AND 0x80 \<noteq> 0")
    case True
    then have "read_varint data pos = Inl IndexError" by (rule read_varint_unterminated)
    with e show ?thesis by simp
  next
    case False
    then obtain j where "pos \<le> j" "j < length data" "data ! j AND 0x80 = 0"
      "\<forall>i. pos \<le> i \<and> i < j \<longrightarrow> data ! i AND 0x80 \<noteq> 0"
      using first_terminator by blast
    then have "read_varint data pos = Inr (le_base128_value (take (j + 1 - pos) (drop pos data)), j + 1)"
      by (rule read_varint_at_terminator)
    with e show ?thesis by simp
  qed
next
  fix j
  assume "pos \<le> j \<and> j < length data \<and> data ! j AND 0x80 = 0
          \<and> (\<forall>i. pos \<le> i \<and> i < j \<longrightarrow> data ! i AND 0x80 \<noteq> 0)"
  then show "read_varint data pos =
              Inr (le_base128_value (take (j + 1 - pos) (drop pos data)), j + 1)"
    by (intro read_varint_at_terminator) simp_all
qed

theorem read_varint_fails_exactly_when_unterminated_witness:
  "read_varint [0x0A, 0xAC, 0x02, 0x41] 1 = Inr (300, 3)
   \<and> read_varint [0x0A, 0xAC, 0x82] 1 = Inl IndexError"
proof -
  let ?d = "[0x0A, 0xAC, 0x02, 0x41] :: bytes"
  have "\<forall>i. 1 \<le> i \<and> i < 2 \<longrightarrow> ?d ! i AND 0x80 \<noteq> 0"
  proof (intro allI impI)
    fix i :: nat assume "1 \<le> i \<and> i < 2"
    then have "i = 1" by linarith
    then show "?d ! i AND 0x80 \<noteq> 0" by simp
  qed
  then have "1 \<le> (2::nat) \<and> 2 < length ?d \<and> ?d ! 2 AND 0x80 = 0
          \<and> (\<forall>i. 1 \<le> i \<and> i < 2 \<longrightarrow> ?d ! i AND 0x80 \<noteq> 0)"
    by simp
  with read_varint_fails_exactly_when_unterminated [of ?d 1]
  have "read_varint ?d 1 = Inr (le_base128_value (take (2 + 1 - 1) (drop 1 ?d)), 2 + 1)"
    by blast
  moreover have "read_varint [0x0A, 0xAC, 0x82] 1 = Inl IndexError"
    using read_varint_fails_exactly_when_unterminated [of "[0x0A, 0xAC, 0x82]" 1] by simp
  ultimately show ?thesis by simp
qed

text \<open>
  C4. Varint round trip: for every natural number \<open>n\<close> (no bound is needed, the integers
  being unbounded), decoding at the offset where the reference encoding of \<open>n\<close> begins,
  whatever precedes and follows it in the buffer, returns \<open>n\<close> and the offset advanced by
  exactly the number of encoded bytes.
\<close>

theorem varint_round_trip:
  "read_varint (pre @ ref_encode_varint n @ suf) (length pre) =
     Inr (n, length pre + length (ref_encode_varint n))"
proof -
  obtain cs t where enc: "ref_encode_varint n = cs @ [t]" "\<forall>b\<in>set cs. b AND 0x80 \<noteq> 0"
      "t AND 0x80 = 0" "le_base128_value (cs @ [t]) = n"
    using ref_encode_varint_shape by blast
  have "read_varint_loop (pre @ cs @ t # suf) (length pre) 0 0 =
          Inr (0 + 2 ^ 0 * le_base128_value (cs @ [t]), length pre + length cs + 1)"
    using enc(2,3) by (intro read_varint_loop_terminated) simp_all
  then show ?thesis
    by (simp add: read_varint_def enc)
qed

section \<open>The manifest decoder\<close>

text \<open>
  \<^verbatim>\<open>str(entry_idx)\<close>: the decimal digits of a non-negative integer, \<open>0\<close> being the code
  point 48.
\<close>

function py_str :: "nat \<Rightarrow> pystr" where
  "py_str n = (if n < 10 then [48 + n] else py_str (n div 10) @ [48 + n mod 10])"
  by pat_completeness auto
termination
  by (relation "measure (\<lambda>n. n)") auto

declare py_str.simps [simp del]

text \<open>
  A successful \<^verbatim>\<open>_read_varint\<close> returns an offset past the one it was given; the loop of
  the manifest decoder terminates by this.
\<close>

lemma read_varint_loop_advances:
  "read_varint_loop data pos v s = Inr (n, pos') \<Longrightarrow> pos < pos'"
proof (induction data pos v s rule: read_varint_loop.induct)
  case (1 data pos val shift)
  show ?case
  proof (cases "length data \<le> pos")
    case True
    with "1.prems" show ?thesis
      by (subst (asm) read_varint_loop.simps) simp
  next
    case inside: False
    show ?thesis
    proof (cases "data ! pos AND 0x80 \<noteq> 0")
      case True
      with inside "1.prems" have "read_varint_loop data (pos + 1)
          (val OR push_bit shift (unat (data ! pos AND 0x7F))) (shift + 7) = Inr (n, pos')"
        by (subst (asm) read_varint_loop.simps) simp
      with inside True have "pos + 1 < pos'" by (intro "1.IH") simp_all
      then show ?thesis by simp
    next
      case False
      with inside "1.prems" show ?thesis
        by (subst (asm) read_varint_loop.simps) auto
    qed
  qed
qed

lemma read_varint_advances: "read_varint data pos = Inr (n, pos') \<Longrightarrow> pos < pos'"
  unfolding read_varint_def by (rule read_varint_loop_advances)

text \<open>
  \<^verbatim>\<open>parse_media_manifest(data)\<close>. The two library calls are parameters:
  \<open>zstd_decompress\<close> is \<^verbatim>\<open>pyzstd.decompress\<close> (\<open>None\<close> when it raises), \<open>decode_utf8\<close> is
  \<^verbatim>\<open>bytes.decode("utf-8")\<close> (\<open>None\<close> for \<^verbatim>\<open>UnicodeDecodeError\<close>). The dictionary \<^verbatim>\<open>manifest\<close> is an association list in insertion
  order, and \<^verbatim>\<open>manifest[k] = v\<close> is \<open>AList.update\<close>: a key already present keeps its
  place, a new key goes to the end.

  \<open>read_entry_name\<close> is the condition and body of the inner \<^verbatim>\<open>if\<close> (lines 116 to 120):
  \<^verbatim>\<open>pos < entry_end and decompressed[pos] == 0x0A\<close> reads \<^verbatim>\<open>decompressed[pos]\<close> only when
  \<^verbatim>\<open>pos < entry_end\<close>, and that read raises \<^verbatim>\<open>IndexError\<close> at or past the end of the
  buffer; the slice \<^verbatim>\<open>decompressed[pos : pos + name_len]\<close> is cut short at the end of the
  buffer without an error. It returns the filename to record, if any. \<open>manifest_loop\<close> is
  the \<^verbatim>\<open>while\<close> loop, returning the loop state \<open>(pos, entry_idx, manifest)\<close> at exit.
\<close>

definition read_entry_name ::
  "(bytes \<Rightarrow> pystr option) \<Rightarrow> bytes \<Rightarrow> nat \<Rightarrow> nat \<Rightarrow> error + pystr option" where
  "read_entry_name decode_utf8 decompressed pos entry_end =
     (if pos < entry_end then
        (if length decompressed \<le> pos then Inl IndexError
         else if decompressed ! pos = 0x0A then
           (case read_varint decompressed (pos + 1) of
              Inl e \<Rightarrow> Inl e
            | Inr (name_len, pos') \<Rightarrow>
                (case decode_utf8 (take name_len (drop pos' decompressed)) of
                   None \<Rightarrow> Inl UnicodeDecodeError
                 | Some filename \<Rightarrow> Inr (Some filename)))
         else Inr None)
      else Inr None)"

function manifest_loop ::
  "(bytes \<Rightarrow> pystr option) \<Rightarrow> bytes \<Rightarrow> nat \<Rightarrow> nat \<Rightarrow> (pystr \<times> pystr) list
     \<Rightarrow> error + (nat \<times> nat \<times> (pystr \<times> pystr) list)" where
  "manifest_loop decode_utf8 decompressed pos entry_idx manifest =
     (if \<not> pos < length decompressed then Inr (pos, entry_idx, manifest)
      else if decompressed ! pos \<noteq> 0x0A then Inr (pos, entry_idx, manifest)
      else
        (case read_varint decompressed (pos + 1) of
           Inl e \<Rightarrow> Inl e
         | Inr (outer_len, pos') \<Rightarrow>
             (case read_entry_name decode_utf8 decompressed pos' (pos' + outer_len) of
                Inl e \<Rightarrow> Inl e
              | Inr None \<Rightarrow>
                  manifest_loop decode_utf8 decompressed (pos' + outer_len) (entry_idx + 1) manifest
              | Inr (Some filename) \<Rightarrow>
                  manifest_loop decode_utf8 decompressed (pos' + outer_len) (entry_idx + 1)
                    (AList.update (py_str entry_idx) filename manifest))))"
  by pat_completeness auto
termination
proof (relation "measure (\<lambda>(decode_utf8, decompressed, pos, entry_idx, manifest). length decompressed - pos)")
  show "wf (measure (\<lambda>(decode_utf8, decompressed, pos, entry_idx, manifest). length decompressed - pos))"
    by simp
qed (auto dest!: read_varint_advances)

declare manifest_loop.simps [simp del]

definition parse_media_manifest ::
  "(bytes \<Rightarrow> bytes option) \<Rightarrow> (bytes \<Rightarrow> pystr option) \<Rightarrow> bytes \<Rightarrow> error + (pystr \<times> pystr) list" where
  "parse_media_manifest zstd_decompress decode_utf8 data =
     (case zstd_decompress data of
        None \<Rightarrow> Inl ZstdError
      | Some decompressed \<Rightarrow>
          (case manifest_loop decode_utf8 decompressed 0 0 [] of
             Inl e \<Rightarrow> Inl e
           | Inr (pos, entry_idx, manifest) \<Rightarrow> Inr manifest))"

text \<open>
  To run the decoder on examples, the two parameters are instantiated. \<open>zstd_stub\<close> stands
  for the decompressor: it rejects a frame that does not start with the magic number of
  the format (as the real one does) and takes the rest of an accepted frame as its
  content. \<open>decode_ascii\<close> stands for the decoder of filenames: it agrees with UTF-8 on
  buffers of bytes below \<open>0x80\<close> and rejects the others (UTF-8 rejects a byte \<open>0xFF\<close> as
  well). The theorems themselves hold for every decompressor and every decoder.
\<close>

definition zstd_stub :: "bytes \<Rightarrow> bytes option" where
  "zstd_stub frame =
     (if take 4 frame = [0x28, 0xB5, 0x2F, 0xFD] then Some (drop 4 frame) else None)"

definition decode_ascii :: "bytes \<Rightarrow> pystr option" where
  "decode_ascii bs = (if \<forall>b\<in>set bs. unat b < 128 then Some (map unat bs) else None)"

text \<open>
  A varint as it stands in a buffer: a non-empty run of bytes, the high bit set on all but
  the last, denoting \<open>n\<close>. The reference encoder produces one, but any such run decodes.
\<close>

definition is_varint_of :: "bytes \<Rightarrow> nat \<Rightarrow> bool" where
  "is_varint_of vb n \<longleftrightarrow>
     vb \<noteq> [] \<and> (\<forall>b\<in>set (butlast vb). b AND 0x80 \<noteq> 0) \<and> last vb AND 0x80 = 0
       \<and> le_base128_value vb = n"

text \<open>
  A well-formed manifest is a sequence of top-level entries that tile the buffer. An entry
  is the tag \<open>0x0A\<close>, a varint, and a body of exactly that many bytes. The body of a
  \<open>Named\<close> entry starts with the inner field: the tag \<open>0x0A\<close>, a varint, a filename of
  exactly that many bytes that decodes, and then the rest of the entry. The body of an
  \<open>Opaque\<close> entry has no recognizable inner field: it is empty or starts with another
  byte. Both kinds carry the bytes of their varints.
\<close>

datatype entry =
    Named bytes bytes bytes bytes
  | Opaque bytes bytes

fun entry_bytes :: "entry \<Rightarrow> bytes" where
  "entry_bytes (Named outer_len name_len name rest) = 0x0A # outer_len @ 0x0A # name_len @ name @ rest"
| "entry_bytes (Opaque outer_len body) = 0x0A # outer_len @ body"

fun wf_entry :: "(bytes \<Rightarrow> pystr option) \<Rightarrow> entry \<Rightarrow> bool" where
  "wf_entry decode_utf8 (Named outer_len name_len name rest) \<longleftrightarrow>
     is_varint_of outer_len (1 + length name_len + length name + length rest)
     \<and> is_varint_of name_len (length name) \<and> decode_utf8 name \<noteq> None"
| "wf_entry decode_utf8 (Opaque outer_len body) \<longleftrightarrow>
     is_varint_of outer_len (length body) \<and> (case body of [] \<Rightarrow> True | b # _ \<Rightarrow> b \<noteq> 0x0A)"

fun slot_filename :: "(bytes \<Rightarrow> pystr option) \<Rightarrow> entry \<Rightarrow> pystr option" where
  "slot_filename decode_utf8 (Named outer_len name_len name rest) = decode_utf8 name"
| "slot_filename decode_utf8 (Opaque outer_len body) = None"

fun record_entries ::
  "(bytes \<Rightarrow> pystr option) \<Rightarrow> nat \<Rightarrow> entry list \<Rightarrow> (pystr \<times> pystr) list \<Rightarrow> (pystr \<times> pystr) list" where
  "record_entries decode_utf8 idx [] m = m"
| "record_entries decode_utf8 idx (e # es) m =
     record_entries decode_utf8 (idx + 1) es
       (case slot_filename decode_utf8 e of None \<Rightarrow> m | Some f \<Rightarrow> AList.update (py_str idx) f m)"

section \<open>Properties of the manifest decoder\<close>

lemma py_str_nonempty: "py_str n \<noteq> []"
  by (subst py_str.simps) simp

lemma py_str_inj: "py_str m = py_str n \<Longrightarrow> m = n"
proof (induction m arbitrary: n rule: py_str.induct)
  case (1 m)
  show ?case
  proof (cases "m < 10")
    case m: True
    show ?thesis
    proof (cases "n < 10")
      case True
      with m "1.prems" show ?thesis
        by (subst (asm) (1 2) py_str.simps) simp
    next
      case False
      with m "1.prems" have "[48 + m] = py_str (n div 10) @ [48 + n mod 10]"
        by (subst (asm) (1 2) py_str.simps) simp
      then have "py_str (n div 10) = []" by simp
      then show ?thesis using py_str_nonempty by blast
    qed
  next
    case m: False
    show ?thesis
    proof (cases "n < 10")
      case True
      with m "1.prems" have "py_str (m div 10) @ [48 + m mod 10] = [48 + n]"
        by (subst (asm) (1 2) py_str.simps) simp
      then have "py_str (m div 10) = []" by simp
      then show ?thesis using py_str_nonempty by blast
    next
      case False
      with m "1.prems" have
        "py_str (m div 10) @ [48 + m mod 10] = py_str (n div 10) @ [48 + n mod 10]"
        by (subst (asm) (1 2) py_str.simps) simp
      then have hi: "py_str (m div 10) = py_str (n div 10)"
        and lo: "m mod 10 = n mod 10" by simp_all
      from hi m have "m div 10 = n div 10" by (intro "1.IH") simp_all
      with lo show ?thesis by (metis div_mult_mod_eq)
    qed
  qed
qed

lemma py_str_digits: "py_str 0 = ustr ''0''" "py_str (Suc 0) = ustr ''1''" "py_str 2 = ustr ''2''"
  by (simp_all add: py_str.simps ustr_def)

lemma read_varint_of:
  assumes "is_varint_of vb n"
  shows "read_varint (pre @ vb @ suf) (length pre) = Inr (n, length pre + length vb)"
proof -
  define cs where "cs = butlast vb"
  define t where "t = last vb"
  from assms have vb: "vb = cs @ [t]" and high: "\<forall>b\<in>set cs. b AND 0x80 \<noteq> 0"
    and low: "t AND 0x80 = 0" and val: "le_base128_value vb = n"
    by (simp_all add: is_varint_of_def cs_def t_def)
  have "read_varint_loop (pre @ cs @ t # suf) (length pre) 0 0 =
      Inr (0 + 2 ^ 0 * le_base128_value (cs @ [t]), length pre + length cs + 1)"
    using high low by (intro read_varint_loop_terminated) simp_all
  then show ?thesis
    using val by (simp add: read_varint_def vb)
qed

lemma ref_encode_is_varint: "is_varint_of (ref_encode_varint n) n"
proof -
  obtain cs t where "ref_encode_varint n = cs @ [t]" "\<forall>b\<in>set cs. b AND 0x80 \<noteq> 0"
      "t AND 0x80 = 0" "le_base128_value (cs @ [t]) = n"
    using ref_encode_varint_shape by blast
  then show ?thesis by (simp add: is_varint_of_def)
qed

lemma manifest_loop_entry:
  assumes "wf_entry decode e"
  shows "manifest_loop decode (pre @ entry_bytes e @ suf) (length pre) idx m =
         manifest_loop decode (pre @ entry_bytes e @ suf) (length pre + length (entry_bytes e)) (idx + 1)
           (case slot_filename decode e of None \<Rightarrow> m | Some f \<Rightarrow> AList.update (py_str idx) f m)"
proof (cases e)
  case (Named ol nl nm rest)
  let ?d = "pre @ entry_bytes e @ suf"
  let ?L = "1 + length nl + length nm + length rest"
  from assms Named have ol: "is_varint_of ol ?L" and nl: "is_varint_of nl (length nm)"
    and dec: "decode nm \<noteq> None" by simp_all
  then obtain f where f: "decode nm = Some f" by blast
  have d1: "?d = (pre @ [0x0A]) @ ol @ (0x0A # nl @ nm @ rest @ suf)"
    by (simp add: Named)
  have d2: "?d = (pre @ 0x0A # ol) @ 0x0A # (nl @ nm @ rest @ suf)"
    by (simp add: Named)
  have d3: "?d = (pre @ 0x0A # ol @ [0x0A]) @ nl @ (nm @ rest @ suf)"
    by (simp add: Named)
  have d4: "?d = (pre @ 0x0A # ol @ 0x0A # nl) @ nm @ (rest @ suf)"
    by (simp add: Named)
  have d0: "?d = pre @ 0x0A # (ol @ 0x0A # nl @ nm @ rest @ suf)"
    by (simp add: Named)
  have tag: "?d ! length pre = 0x0A"
    by (subst d0) (simp only: nth_append_length)
  have inside: "length pre < length ?d" by (simp add: Named)
  have outer: "read_varint ?d (length pre + 1) = Inr (?L, length pre + 1 + length ol)"
    using read_varint_of [OF ol, of "pre @ [0x0A]" "0x0A # nl @ nm @ rest @ suf"]
    by (simp only: d1 [symmetric]) simp
  let ?p1 = "length pre + 1 + length ol"
  have tag1: "?d ! ?p1 = 0x0A"
  proof -
    have "?p1 = length (pre @ 0x0A # ol)" by simp
    then show ?thesis by (subst d2) (simp only: nth_append_length)
  qed
  have inside1: "?p1 < length ?d" by (simp add: Named)
  have inner: "read_varint ?d (?p1 + 1) = Inr (length nm, ?p1 + 1 + length nl)"
    using read_varint_of [OF nl, of "pre @ 0x0A # ol @ [0x0A]" "nm @ rest @ suf"]
    by (simp only: d3 [symmetric]) simp
  have slice: "take (length nm) (drop (?p1 + 1 + length nl) ?d) = nm"
  proof -
    have "?p1 + 1 + length nl = length (pre @ 0x0A # ol @ 0x0A # nl)" by simp
    moreover have "drop (length (pre @ 0x0A # ol @ 0x0A # nl))
        ((pre @ 0x0A # ol @ 0x0A # nl) @ nm @ (rest @ suf)) = nm @ (rest @ suf)"
      by (rule append_eq_conv_conj [THEN iffD1, OF refl, THEN conjunct2, symmetric])
    ultimately have "drop (?p1 + 1 + length nl) ?d = nm @ (rest @ suf)"
      by (simp only: d4 [symmetric])
    then show ?thesis by simp
  qed
  have name: "read_entry_name decode ?d ?p1 (?p1 + ?L) = Inr (Some f)"
    using inside1 tag1 inner slice f by (simp add: read_entry_name_def)
  have len: "length pre + length (entry_bytes e) = ?p1 + ?L"
    by (simp add: Named)
  show ?thesis
    using inside tag outer name f
    by (subst manifest_loop.simps) (simp add: len Named add.assoc)
next
  case (Opaque ol body)
  let ?d = "pre @ entry_bytes e @ suf"
  from assms Opaque have ol: "is_varint_of ol (length body)"
    and first: "case body of [] \<Rightarrow> True | b # _ \<Rightarrow> b \<noteq> 0x0A" by simp_all
  have d0: "?d = pre @ 0x0A # (ol @ body @ suf)" by (simp add: Opaque)
  have d1: "?d = (pre @ [0x0A]) @ ol @ (body @ suf)" by (simp add: Opaque)
  have tag: "?d ! length pre = 0x0A"
    by (subst d0) (simp only: nth_append_length)
  have inside: "length pre < length ?d" by (simp add: Opaque)
  have outer: "read_varint ?d (length pre + 1) = Inr (length body, length pre + 1 + length ol)"
    using read_varint_of [OF ol, of "pre @ [0x0A]" "body @ suf"]
    by (simp only: d1 [symmetric]) simp
  let ?p1 = "length pre + 1 + length ol"
  have name: "read_entry_name decode ?d ?p1 (?p1 + length body) = Inr None"
  proof (cases body)
    case Nil
    then show ?thesis by (simp add: read_entry_name_def)
  next
    case (Cons b bs)
    with first have b: "b \<noteq> 0x0A" by simp
    have "?d = (pre @ 0x0A # ol) @ b # (bs @ suf)" by (simp add: Opaque Cons)
    moreover have "?p1 = length (pre @ 0x0A # ol)" by simp
    ultimately have "?d ! ?p1 = b" by (simp only: nth_append_length)
    moreover have "?p1 < length ?d" by (simp add: Opaque Cons)
    ultimately show ?thesis using b by (simp add: read_entry_name_def)
  qed
  have len: "length pre + length (entry_bytes e) = ?p1 + length body"
    by (simp add: Opaque)
  show ?thesis
    using inside tag outer name
    by (subst manifest_loop.simps) (simp add: len Opaque add.assoc)
qed

lemma manifest_loop_entries:
  assumes "\<forall>e\<in>set es. wf_entry decode e"
  shows "manifest_loop decode (pre @ concat (map entry_bytes es)) (length pre) idx m =
           Inr (length pre + length (concat (map entry_bytes es)), idx + length es,
                record_entries decode idx es m)"
  using assms
proof (induction es arbitrary: pre idx m)
  case Nil
  then show ?case by (subst manifest_loop.simps) simp
next
  case (Cons e es)
  let ?m' = "case slot_filename decode e of None \<Rightarrow> m | Some f \<Rightarrow> AList.update (py_str idx) f m"
  let ?suf = "concat (map entry_bytes es)"
  have e: "wf_entry decode e" and es: "\<forall>e\<in>set es. wf_entry decode e"
    using Cons.prems by simp_all
  have "manifest_loop decode (pre @ entry_bytes e @ ?suf) (length pre) idx m =
        manifest_loop decode (pre @ entry_bytes e @ ?suf) (length pre + length (entry_bytes e)) (idx + 1) ?m'"
    using e by (rule manifest_loop_entry)
  also have "\<dots> = manifest_loop decode ((pre @ entry_bytes e) @ ?suf) (length (pre @ entry_bytes e)) (idx + 1) ?m'"
    by simp
  also have "\<dots> = Inr (length (pre @ entry_bytes e) + length ?suf, idx + 1 + length es,
                        record_entries decode (idx + 1) es ?m')"
    using es by (rule Cons.IH)
  finally show ?case by (simp add: add.assoc)
qed

lemma map_of_record_entries_other:
  assumes "\<forall>i<length es. k \<noteq> py_str (idx + i)"
  shows "map_of (record_entries decode idx es m) k = map_of m k"
  using assms
proof (induction es arbitrary: idx m)
  case Nil
  then show ?case by simp
next
  case (Cons e es)
  let ?m' = "case slot_filename decode e of None \<Rightarrow> m | Some f \<Rightarrow> AList.update (py_str idx) f m"
  have "\<forall>i<length es. k \<noteq> py_str (idx + 1 + i)"
  proof (intro allI impI)
    fix i assume "i < length es"
    then have "Suc i < length (e # es)" by simp
    with Cons.prems have "k \<noteq> py_str (idx + Suc i)" by blast
    then show "k \<noteq> py_str (idx + 1 + i)" by simp
  qed
  then have "map_of (record_entries decode (idx + 1) es ?m') k = map_of ?m' k"
    by (rule Cons.IH)
  moreover have "k \<noteq> py_str idx"
    using Cons.prems by (metis add.right_neutral length_greater_0_conv list.discI)
  then have "map_of ?m' k = map_of m k"
    by (simp add: update_conv' split: option.splits)
  ultimately show ?case by simp
qed

lemma map_of_record_entries_slot:
  assumes "i < length es"
  shows "map_of (record_entries decode idx es m) (py_str (idx + i)) =
           (case slot_filename decode (es ! i) of
              None \<Rightarrow> map_of m (py_str (idx + i))
            | Some f \<Rightarrow> Some f)"
  using assms
proof (induction es arbitrary: idx m i)
  case Nil
  then show ?case by simp
next
  case (Cons e es)
  let ?m' = "case slot_filename decode e of None \<Rightarrow> m | Some f \<Rightarrow> AList.update (py_str idx) f m"
  show ?case
  proof (cases i)
    case 0
    have "\<forall>j<length es. py_str idx \<noteq> py_str (idx + 1 + j)"
      using py_str_inj by fastforce
    then have "map_of (record_entries decode (idx + 1) es ?m') (py_str idx) = map_of ?m' (py_str idx)"
      by (rule map_of_record_entries_other)
    then show ?thesis
      using 0 by (simp add: update_conv' split: option.splits)
  next
    case (Suc i')
    then have "i' < length es" using Cons.prems by simp
    then have "map_of (record_entries decode (idx + 1) es ?m') (py_str (idx + 1 + i')) =
        (case slot_filename decode (es ! i') of
           None \<Rightarrow> map_of ?m' (py_str (idx + 1 + i'))
         | Some f \<Rightarrow> Some f)"
      by (rule Cons.IH)
    moreover have "py_str (idx + 1 + i') \<noteq> py_str idx"
      using py_str_inj by fastforce
    then have "map_of ?m' (py_str (idx + 1 + i')) = map_of m (py_str (idx + 1 + i'))"
      by (simp add: update_conv' split: option.splits)
    moreover have "idx + i = idx + 1 + i'" "(e # es) ! i = es ! i'"
      using Suc by simp_all
    ultimately show ?thesis
      by (simp only: record_entries.simps)
  qed
qed

lemma read_varint_error: "read_varint data pos = Inl e \<Longrightarrow> e = IndexError"
proof (cases "\<forall>b\<in>set (drop pos data). b AND 0x80 \<noteq> 0")
  case True
  assume e: "read_varint data pos = Inl e"
  from True have "read_varint data pos = Inl IndexError" by (rule read_varint_unterminated)
  with e show ?thesis by simp
next
  case False
  assume e: "read_varint data pos = Inl e"
  from False obtain j where "pos \<le> j" "j < length data" "data ! j AND 0x80 = 0"
    "\<forall>i. pos \<le> i \<and> i < j \<longrightarrow> data ! i AND 0x80 \<noteq> 0"
    using first_terminator by blast
  then have "read_varint data pos = Inr (le_base128_value (take (j + 1 - pos) (drop pos data)), j + 1)"
    by (rule read_varint_at_terminator)
  with e show ?thesis by simp
qed

lemma read_entry_name_error:
  "read_entry_name decode d pos entry_end = Inl e \<Longrightarrow> e = IndexError \<or> e = UnicodeDecodeError"
  by (auto simp: read_entry_name_def split: if_splits sum.splits option.splits prod.splits
        dest: read_varint_error)

lemma manifest_loop_error:
  "manifest_loop decode d pos idx m = Inl e \<Longrightarrow> e = IndexError \<or> e = UnicodeDecodeError"
proof (induction decode d pos idx m rule: manifest_loop.induct)
  case (1 decode d pos idx m)
  show ?case
  proof (cases "pos < length d \<and> d ! pos = 0x0A")
    case False
    with "1.prems" show ?thesis
      by (subst (asm) manifest_loop.simps) (auto split: if_splits)
  next
    case True
    show ?thesis
    proof (cases "read_varint d (pos + 1)")
      case (Inl e')
      with True "1.prems" have "e = e'"
        by (subst (asm) manifest_loop.simps) simp
      with Inl show ?thesis using read_varint_error by blast
    next
      case (Inr r)
      obtain outer_len pos' where r: "r = (outer_len, pos')" by (cases r)
      show ?thesis
      proof (cases "read_entry_name decode d pos' (pos' + outer_len)")
        case (Inl e')
        with True Inr r "1.prems" have "e = e'"
          by (subst (asm) manifest_loop.simps) simp
        with Inl show ?thesis using read_entry_name_error by blast
      next
        case inner: (Inr fo)
        show ?thesis
        proof (cases fo)
          case None
          with True Inr r inner "1.prems"
          have "manifest_loop decode d (pos' + outer_len) (idx + 1) m = Inl e"
            by (subst (asm) manifest_loop.simps) simp
          with True Inr r inner None show ?thesis
            by (intro "1.IH"(1) [of r outer_len pos']) simp_all
        next
          case (Some f)
          with True Inr r inner "1.prems"
          have "manifest_loop decode d (pos' + outer_len) (idx + 1)
                  (AList.update (py_str idx) f m) = Inl e"
            by (subst (asm) manifest_loop.simps) simp
          with True Inr r inner Some show ?thesis
            by (intro "1.IH"(2) [of r outer_len pos']) simp_all
        qed
      qed
    qed
  qed
qed

text \<open>
  C1. On a well-formed manifest of \<open>count\<close> entries the decoder returns a mapping, and slot
  numbers are positions: the loop leaves with the counter at \<open>count\<close>, the entry at
  position \<open>i\<close> is recorded under the key \<open>str(i)\<close> when it has an inner field and under
  no key otherwise, and no other key is present. An entry without an inner field leaves
  its own slot empty and does not shift the slots of the entries after it.
\<close>

theorem manifest_slots_positional:
  assumes "\<forall>e\<in>set es. wf_entry decode_utf8 e"
    and "zstd_decompress data = Some (concat (map entry_bytes es))"
  shows "\<exists>m. parse_media_manifest zstd_decompress decode_utf8 data = Inr m
           \<and> manifest_loop decode_utf8 (concat (map entry_bytes es)) 0 0 [] =
               Inr (length (concat (map entry_bytes es)), length es, m)
           \<and> (\<forall>i<length es. map_of m (py_str i) = slot_filename decode_utf8 (es ! i))
           \<and> (\<forall>k. (\<forall>i<length es. k \<noteq> py_str i) \<longrightarrow> map_of m k = None)"
proof -
  let ?d = "concat (map entry_bytes es)"
  let ?m = "record_entries decode_utf8 0 es []"
  have loop: "manifest_loop decode_utf8 ?d 0 0 [] = Inr (length ?d, length es, ?m)"
    using manifest_loop_entries [OF assms(1), of "[]" 0 "[]"] by simp
  then have parse: "parse_media_manifest zstd_decompress decode_utf8 data = Inr ?m"
    using assms(2) by (simp add: parse_media_manifest_def)
  have slots: "\<forall>i<length es. map_of ?m (py_str i) = slot_filename decode_utf8 (es ! i)"
  proof (intro allI impI)
    fix i assume "i < length es"
    then show "map_of ?m (py_str i) = slot_filename decode_utf8 (es ! i)"
      using map_of_record_entries_slot [of i es decode_utf8 0 "[]"]
      by (simp split: option.splits)
  qed
  have others: "\<forall>k. (\<forall>i<length es. k \<noteq> py_str i) \<longrightarrow> map_of ?m k = None"
  proof (intro allI impI)
    fix k assume "\<forall>i<length es. k \<noteq> py_str i"
    then show "map_of ?m k = None"
      using map_of_record_entries_other [of es k 0 decode_utf8 "[]"] by simp
  qed
  from parse loop slots others show ?thesis by blast
qed

theorem manifest_slots_positional_witness:
  "\<exists>m. parse_media_manifest zstd_stub decode_ascii
          [0x28, 0xB5, 0x2F, 0xFD,
           0x0A, 0x07, 0x0A, 0x03, 0x61, 0x2E, 0x62, 0x10, 0x01,
           0x0A, 0x02, 0x10, 0x01,
           0x0A, 0x03, 0x0A, 0x01, 0x63] = Inr m
       \<and> map_of m (ustr ''0'') = Some (ustr ''a.b'') \<and> map_of m (ustr ''1'') = None
       \<and> map_of m (ustr ''2'') = Some (ustr ''c'')"
proof -
  let ?es = "[Named [0x07] [0x03] [0x61, 0x2E, 0x62] [0x10, 0x01],
              Opaque [0x02] [0x10, 0x01],
              Named [0x03] [0x01] [0x63] []]"
  let ?frame = "[0x28, 0xB5, 0x2F, 0xFD,
                 0x0A, 0x07, 0x0A, 0x03, 0x61, 0x2E, 0x62, 0x10, 0x01,
                 0x0A, 0x02, 0x10, 0x01, 0x0A, 0x03, 0x0A, 0x01, 0x63] :: bytes"
  have wf: "\<forall>e\<in>set ?es. wf_entry decode_ascii e"
    by (simp add: is_varint_of_def decode_ascii_def)
  have d: "zstd_stub ?frame = Some (concat (map entry_bytes ?es))"
    by (simp add: zstd_stub_def)
  from manifest_slots_positional [of ?es decode_ascii zstd_stub ?frame, OF wf d]
  obtain m where m: "parse_media_manifest zstd_stub decode_ascii ?frame = Inr m"
    and slots: "\<forall>i<length ?es. map_of m (py_str i) = slot_filename decode_ascii (?es ! i)"
    by blast
  have "map_of m (py_str 0) = slot_filename decode_ascii (?es ! 0)"
    using slots by simp
  moreover have "map_of m (py_str 1) = slot_filename decode_ascii (?es ! 1)"
    using slots by simp
  moreover have "map_of m (py_str 2) = slot_filename decode_ascii (?es ! 2)"
    using slots by simp
  ultimately have "map_of m (ustr ''0'') = Some (ustr ''a.b'') \<and> map_of m (ustr ''1'') = None
       \<and> map_of m (ustr ''2'') = Some (ustr ''c'')"
    by (simp add: py_str_digits decode_ascii_def ustr_def)
  with m show ?thesis by blast
qed

text \<open>
  C2. The decoder is not total. On the decompressed buffer \<open>0A 05\<close> the length prefix of
  the entry overruns the buffer, and the read of the inner tag at offset 2 raises; on the
  decompressed buffer \<open>0A\<close> the length varint itself is missing.
\<close>

theorem manifest_decoder_raises_counterexample:
  "parse_media_manifest zstd_stub decode_ascii [0x28, 0xB5, 0x2F, 0xFD, 0x0A, 0x05] = Inl IndexError
   \<and> parse_media_manifest zstd_stub decode_ascii [0x28, 0xB5, 0x2F, 0xFD, 0x0A] = Inl IndexError"
  by (simp add: parse_media_manifest_def zstd_stub_def manifest_loop.simps read_varint_def
        read_varint_loop.simps read_entry_name_def)

lemma manifest_loop_step:
  assumes "pos < length d" and "d ! pos = 0x0A"
  shows "manifest_loop dec d pos idx m =
     (case read_varint d (pos + 1) of
        Inl e \<Rightarrow> Inl e
      | Inr (outer_len, pos') \<Rightarrow>
          (case read_entry_name dec d pos' (pos' + outer_len) of
             Inl e \<Rightarrow> Inl e
           | Inr None \<Rightarrow> manifest_loop dec d (pos' + outer_len) (idx + 1) m
           | Inr (Some filename) \<Rightarrow>
               manifest_loop dec d (pos' + outer_len) (idx + 1)
                 (AList.update (py_str idx) filename m)))"
  using assms by (subst manifest_loop.simps) simp

text \<open>
  C2, as the code has it, one entry at a time. At an entry boundary the loop stops
  silently, returning the mapping built so far, when the buffer is exhausted and when the
  byte there is not the tag \<open>0x0A\<close>. At a tag, with the length prefix read, an entry that is
  empty or does not start with the inner tag is skipped and an entry with an inner field
  whose length and name could be read is recorded, and the loop goes on at the declared
  end of the entry, also when that end lies past the end of the buffer: the entry is then
  the last one, by the first case. The loop raises \<^verbatim>\<open>IndexError\<close> when the length prefix of
  the entry is cut off by the end of the buffer, when an entry of non-zero declared length
  has no byte after its length prefix, and when the length prefix of the inner field is
  cut off; it raises \<^verbatim>\<open>UnicodeDecodeError\<close> when the name does not decode; and it raises
  nothing else.
\<close>

theorem manifest_loop_stops_and_raises:
  "(length d \<le> pos \<longrightarrow> manifest_loop dec d pos idx m = Inr (pos, idx, m))
   \<and> (pos < length d \<and> d ! pos \<noteq> 0x0A \<longrightarrow> manifest_loop dec d pos idx m = Inr (pos, idx, m))
   \<and> (pos < length d \<and> d ! pos = 0x0A \<and> read_varint d (pos + 1) = Inr (outer_len, pos')
        \<and> (outer_len = 0 \<or> (pos' < length d \<and> d ! pos' \<noteq> 0x0A)) \<longrightarrow>
        manifest_loop dec d pos idx m = manifest_loop dec d (pos' + outer_len) (idx + 1) m)
   \<and> (pos < length d \<and> d ! pos = 0x0A \<and> read_varint d (pos + 1) = Inr (outer_len, pos')
        \<and> 0 < outer_len \<and> pos' < length d \<and> d ! pos' = 0x0A
        \<and> read_varint d (pos' + 1) = Inr (name_len, pos'')
        \<and> dec (take name_len (drop pos'' d)) = Some filename \<longrightarrow>
        manifest_loop dec d pos idx m =
          manifest_loop dec d (pos' + outer_len) (idx + 1) (AList.update (py_str idx) filename m))
   \<and> (pos < length d \<and> d ! pos = 0x0A \<and> read_varint d (pos + 1) = Inl e \<longrightarrow>
        manifest_loop dec d pos idx m = Inl IndexError)
   \<and> (pos < length d \<and> d ! pos = 0x0A \<and> read_varint d (pos + 1) = Inr (outer_len, pos')
        \<and> 0 < outer_len \<and> length d \<le> pos' \<longrightarrow>
        manifest_loop dec d pos idx m = Inl IndexError)
   \<and> (pos < length d \<and> d ! pos = 0x0A \<and> read_varint d (pos + 1) = Inr (outer_len, pos')
        \<and> 0 < outer_len \<and> pos' < length d \<and> d ! pos' = 0x0A
        \<and> read_varint d (pos' + 1) = Inl e \<longrightarrow>
        manifest_loop dec d pos idx m = Inl IndexError)
   \<and> (pos < length d \<and> d ! pos = 0x0A \<and> read_varint d (pos + 1) = Inr (outer_len, pos')
        \<and> 0 < outer_len \<and> pos' < length d \<and> d ! pos' = 0x0A
        \<and> read_varint d (pos' + 1) = Inr (name_len, pos'')
        \<and> dec (take name_len (drop pos'' d)) = None \<longrightarrow>
        manifest_loop dec d pos idx m = Inl UnicodeDecodeError)
   \<and> (\<forall>x. manifest_loop dec d pos idx m = Inl x \<longrightarrow> x = IndexError \<or> x = UnicodeDecodeError)"
proof (intro conjI impI allI)
  assume "length d \<le> pos"
  then show "manifest_loop dec d pos idx m = Inr (pos, idx, m)"
    by (subst manifest_loop.simps) simp
next
  assume "pos < length d \<and> d ! pos \<noteq> 0x0A"
  then show "manifest_loop dec d pos idx m = Inr (pos, idx, m)"
    by (subst manifest_loop.simps) simp
next
  assume a: "pos < length d \<and> d ! pos = 0x0A \<and> read_varint d (pos + 1) = Inr (outer_len, pos')
        \<and> (outer_len = 0 \<or> (pos' < length d \<and> d ! pos' \<noteq> 0x0A))"
  then have "read_entry_name dec d pos' (pos' + outer_len) = Inr None"
    by (auto simp: read_entry_name_def)
  with a show "manifest_loop dec d pos idx m = manifest_loop dec d (pos' + outer_len) (idx + 1) m"
    by (simp add: manifest_loop_step)
next
  assume a: "pos < length d \<and> d ! pos = 0x0A \<and> read_varint d (pos + 1) = Inr (outer_len, pos')
        \<and> 0 < outer_len \<and> pos' < length d \<and> d ! pos' = 0x0A
        \<and> read_varint d (pos' + 1) = Inr (name_len, pos'')
        \<and> dec (take name_len (drop pos'' d)) = Some filename"
  then have "read_entry_name dec d pos' (pos' + outer_len) = Inr (Some filename)"
    by (simp add: read_entry_name_def)
  with a show "manifest_loop dec d pos idx m =
          manifest_loop dec d (pos' + outer_len) (idx + 1) (AList.update (py_str idx) filename m)"
    by (simp add: manifest_loop_step)
next
  assume a: "pos < length d \<and> d ! pos = 0x0A \<and> read_varint d (pos + 1) = Inl e"
  then have "e = IndexError" using read_varint_error by blast
  with a show "manifest_loop dec d pos idx m = Inl IndexError"
    by (simp add: manifest_loop_step)
next
  assume a: "pos < length d \<and> d ! pos = 0x0A \<and> read_varint d (pos + 1) = Inr (outer_len, pos')
        \<and> 0 < outer_len \<and> length d \<le> pos'"
  then have "read_entry_name dec d pos' (pos' + outer_len) = Inl IndexError"
    by (simp add: read_entry_name_def)
  with a show "manifest_loop dec d pos idx m = Inl IndexError"
    by (simp add: manifest_loop_step)
next
  assume a: "pos < length d \<and> d ! pos = 0x0A \<and> read_varint d (pos + 1) = Inr (outer_len, pos')
        \<and> 0 < outer_len \<and> pos' < length d \<and> d ! pos' = 0x0A
        \<and> read_varint d (pos' + 1) = Inl e"
  then have "e = IndexError" using read_varint_error by blast
  with a have "read_entry_name dec d pos' (pos' + outer_len) = Inl IndexError"
    by (simp add: read_entry_name_def)
  with a show "manifest_loop dec d pos idx m = Inl IndexError"
    by (simp add: manifest_loop_step)
next
  assume a: "pos < length d \<and> d ! pos = 0x0A \<and> read_varint d (pos + 1) = Inr (outer_len, pos')
        \<and> 0 < outer_len \<and> pos' < length d \<and> d ! pos' = 0x0A
        \<and> read_varint d (pos' + 1) = Inr (name_len, pos'')
        \<and> dec (take name_len (drop pos'' d)) = None"
  then have "read_entry_name dec d pos' (pos' + outer_len) = Inl UnicodeDecodeError"
    by (simp add: read_entry_name_def)
  with a show "manifest_loop dec d pos idx m = Inl UnicodeDecodeError"
    by (simp add: manifest_loop_step)
next
  fix x assume "manifest_loop dec d pos idx m = Inl x"
  then show "x = IndexError \<or> x = UnicodeDecodeError" by (rule manifest_loop_error)
qed

theorem manifest_loop_stops_and_raises_witness:
  "manifest_loop decode_ascii [0x0A, 0x01, 0x10] 3 1 [] = Inr (3, 1, [])
   \<and> manifest_loop decode_ascii [0x0B, 0x01, 0x10] 0 0 [] = Inr (0, 0, [])
   \<and> manifest_loop decode_ascii [0x0A, 0x05, 0x10, 0x01] 0 0 [] = Inr (7, 1, [])
   \<and> manifest_loop decode_ascii [0x0A, 0x05, 0x0A, 0x03, 0x61, 0x62] 0 0 [] =
       Inr (7, 1, [(ustr ''0'', ustr ''ab'')])
   \<and> manifest_loop decode_ascii [0x0A, 0x85] 0 0 [] = Inl IndexError
   \<and> manifest_loop decode_ascii [0x0A, 0x05] 0 0 [] = Inl IndexError
   \<and> manifest_loop decode_ascii [0x0A, 0x05, 0x0A, 0x83] 0 0 [] = Inl IndexError
   \<and> manifest_loop decode_ascii [0x0A, 0x03, 0x0A, 0x01, 0xFF] 0 0 [] = Inl UnicodeDecodeError"
proof -
  note T = manifest_loop_stops_and_raises
  have s1: "manifest_loop decode_ascii [0x0A, 0x01, 0x10] 3 1 [] = Inr (3, 1, [])"
    using T [of "[0x0A, 0x01, 0x10]" 3 decode_ascii 1 "[]"] by simp
  have s2: "manifest_loop decode_ascii [0x0B, 0x01, 0x10] 0 0 [] = Inr (0, 0, [])"
    using T [of "[0x0B, 0x01, 0x10]" 0 decode_ascii 0 "[]"] by simp
  have past: "manifest_loop decode_ascii d 7 i m = Inr (7, i, m)" if "length d \<le> 7" for d i m
    using T [of d 7 decode_ascii i m] that by simp
  let ?d3 = "[0x0A, 0x05, 0x10, 0x01] :: bytes"
  have "0 < length ?d3 \<and> ?d3 ! 0 = 0x0A \<and> read_varint ?d3 (0 + 1) = Inr (5, 2)
        \<and> (5 = (0::nat) \<or> (2 < length ?d3 \<and> ?d3 ! 2 \<noteq> 0x0A))"
    by (simp add: read_varint_def read_varint_loop.simps)
  with T [of ?d3 0 decode_ascii 0 "[]" 5 2]
  have "manifest_loop decode_ascii ?d3 0 0 [] = manifest_loop decode_ascii ?d3 (2 + 5) (0 + 1) []"
    by blast
  then have s3: "manifest_loop decode_ascii ?d3 0 0 [] = Inr (7, 1, [])"
    by (simp add: past)
  let ?d4 = "[0x0A, 0x05, 0x0A, 0x03, 0x61, 0x62] :: bytes"
  have "0 < length ?d4 \<and> ?d4 ! 0 = 0x0A \<and> read_varint ?d4 (0 + 1) = Inr (5, 2)
        \<and> 0 < (5::nat) \<and> 2 < length ?d4 \<and> ?d4 ! 2 = 0x0A
        \<and> read_varint ?d4 (2 + 1) = Inr (3, 4)
        \<and> decode_ascii (take 3 (drop 4 ?d4)) = Some (ustr ''ab'')"
    by (simp add: read_varint_def read_varint_loop.simps decode_ascii_def ustr_def)
  with T [of ?d4 0 decode_ascii 0 "[]" 5 2 3 4 "ustr ''ab''"]
  have "manifest_loop decode_ascii ?d4 0 0 [] =
        manifest_loop decode_ascii ?d4 (2 + 5) (0 + 1) (AList.update (py_str 0) (ustr ''ab'') [])"
    by blast
  then have s4: "manifest_loop decode_ascii ?d4 0 0 [] = Inr (7, 1, [(ustr ''0'', ustr ''ab'')])"
    by (simp add: past py_str_digits)
  let ?d5 = "[0x0A, 0x85] :: bytes"
  have "0 < length ?d5 \<and> ?d5 ! 0 = 0x0A \<and> read_varint ?d5 (0 + 1) = Inl IndexError"
    by (simp add: read_varint_def read_varint_loop.simps)
  with T [of ?d5 0 decode_ascii 0 "[]" _ _ _ _ _ IndexError]
  have e1: "manifest_loop decode_ascii ?d5 0 0 [] = Inl IndexError"
    by blast
  let ?d6 = "[0x0A, 0x05] :: bytes"
  have "0 < length ?d6 \<and> ?d6 ! 0 = 0x0A \<and> read_varint ?d6 (0 + 1) = Inr (5, 2)
        \<and> 0 < (5::nat) \<and> length ?d6 \<le> 2"
    by (simp add: read_varint_def read_varint_loop.simps)
  with T [of ?d6 0 decode_ascii 0 "[]" 5 2]
  have e2: "manifest_loop decode_ascii ?d6 0 0 [] = Inl IndexError"
    by blast
  let ?d7 = "[0x0A, 0x05, 0x0A, 0x83] :: bytes"
  have "0 < length ?d7 \<and> ?d7 ! 0 = 0x0A \<and> read_varint ?d7 (0 + 1) = Inr (5, 2)
        \<and> 0 < (5::nat) \<and> 2 < length ?d7 \<and> ?d7 ! 2 = 0x0A
        \<and> read_varint ?d7 (2 + 1) = Inl IndexError"
    by (simp add: read_varint_def read_varint_loop.simps)
  with T [of ?d7 0 decode_ascii 0 "[]" 5 2 _ _ _ IndexError]
  have e3: "manifest_loop decode_ascii ?d7 0 0 [] = Inl IndexError"
    by blast
  let ?d8 = "[0x0A, 0x03, 0x0A, 0x01, 0xFF] :: bytes"
  have "0 < length ?d8 \<and> ?d8 ! 0 = 0x0A \<and> read_varint ?d8 (0 + 1) = Inr (3, 2)
        \<and> 0 < (3::nat) \<and> 2 < length ?d8 \<and> ?d8 ! 2 = 0x0A
        \<and> read_varint ?d8 (2 + 1) = Inr (1, 4)
        \<and> decode_ascii (take 1 (drop 4 ?d8)) = None"
    by (simp add: read_varint_def read_varint_loop.simps decode_ascii_def)
  with T [of ?d8 0 decode_ascii 0 "[]" 3 2 1 4]
  have e4: "manifest_loop decode_ascii ?d8 0 0 [] = Inl UnicodeDecodeError"
    by blast
  from s1 s2 s3 s4 e1 e2 e3 e4 show ?thesis by simp
qed

section \<open>Regular expressions\<close>

text \<open>
  The five patterns of the script are sequences of quantified character classes with at
  most one capture group. \<open>Rep cls lo hi greedy\<close> is a class repeated at least \<open>lo\<close> and
  at most \<open>hi\<close> times (\<open>None\<close>: no upper bound), greedy or lazy; \<open>GroupOpen\<close> and
  \<open>GroupClose\<close> mark group 1. \<open>match_atoms\<close> is the backtracking matcher of Python's
  \<^verbatim>\<open>re\<close> on this fragment: a greedy repetition tries the largest count first, a lazy one
  the smallest, and the first count for which the rest of the pattern matches wins. It
  returns the end of the match and the span of group 1. None of the patterns has an
  anchor or a look-around, so a match at an offset depends on the text from that offset
  only.
\<close>

datatype atom =
    Rep "nat \<Rightarrow> bool" nat "nat option" bool
  | GroupOpen
  | GroupClose

fun first_some :: "('a \<Rightarrow> 'b option) \<Rightarrow> 'a list \<Rightarrow> 'b option" where
  "first_some f [] = None"
| "first_some f (x # xs) = (case f x of Some y \<Rightarrow> Some y | None \<Rightarrow> first_some f xs)"

definition candidates :: "nat \<Rightarrow> nat \<Rightarrow> bool \<Rightarrow> nat list" where
  "candidates lo hi greedy = (if greedy then rev [lo..<hi + 1] else [lo..<hi + 1])"

fun match_atoms :: "atom list \<Rightarrow> pystr \<Rightarrow> nat \<Rightarrow> nat \<times> nat \<Rightarrow> (nat \<times> nat \<times> nat) option" where
  "match_atoms [] s pos g = Some (pos, g)"
| "match_atoms (GroupOpen # r) s pos g = match_atoms r s pos (pos, snd g)"
| "match_atoms (GroupClose # r) s pos g = match_atoms r s pos (fst g, pos)"
| "match_atoms (Rep cls lo hi greedy # r) s pos g =
     (let avail = length (takeWhile cls s);
          most = (case hi of None \<Rightarrow> avail | Some h \<Rightarrow> min avail h)
      in first_some (\<lambda>k. match_atoms r (drop k s) (pos + k) g) (candidates lo most greedy))"

declare match_atoms.simps(4) [simp del]

text \<open>
  \<open>re_match p s\<close>: a match of \<open>p\<close> at the start of \<open>s\<close>, as the length of the match and
  the text of group 1 (empty for a pattern without a group).
\<close>

definition re_match :: "atom list \<Rightarrow> pystr \<Rightarrow> (nat \<times> pystr) option" where
  "re_match p s =
     (case match_atoms p s 0 (0, 0) of
        None \<Rightarrow> None
      | Some (n, gs, ge) \<Rightarrow> Some (n, take (ge - gs) (drop gs s)))"

abbreviation Lit :: "char \<Rightarrow> atom" where "Lit c \<equiv> Rep (\<lambda>x. x = of_char c) 1 (Some 1) True"
abbreviation One :: "(nat \<Rightarrow> bool) \<Rightarrow> atom" where "One cls \<equiv> Rep cls 1 (Some 1) True"
abbreviation Star :: "(nat \<Rightarrow> bool) \<Rightarrow> atom" where "Star cls \<equiv> Rep cls 0 None True"
abbreviation Plus :: "(nat \<Rightarrow> bool) \<Rightarrow> atom" where "Plus cls \<equiv> Rep cls 1 None True"
abbreviation LazyStar :: "(nat \<Rightarrow> bool) \<Rightarrow> atom" where "LazyStar cls \<equiv> Rep cls 0 None False"

text \<open>
  The character classes. On the ASCII code points they are fixed: \<^verbatim>\<open>\d\<close> is \<open>0\<close> to \<open>9\<close>,
  \<^verbatim>\<open>\s\<close> (and the whitespace of \<^verbatim>\<open>str.strip\<close>) is 9 to 13, 28 to 31 and the space, a letter
  under \<^verbatim>\<open>re.IGNORECASE\<close> matches itself and its capital, and \<^verbatim>\<open>str.lower\<close> lowers \<open>A\<close> to
  \<open>Z\<close>. On the code points from 128 on they are read from the tables of the Unicode
  database the interpreter was built with, which the run is parameterised by: the decimal
  digits (category Nd), the whitespace, the code points a letter matches ignoring case,
  and the lower-case mapping, which may yield more than one code point.
\<close>

record ucd =
  ucd_decimal :: "nat \<Rightarrow> bool"
  ucd_space :: "nat \<Rightarrow> bool"
  ucd_caseless :: "nat \<Rightarrow> nat \<Rightarrow> bool"
  ucd_lower :: "nat \<Rightarrow> pystr"

definition is_digit :: "ucd \<Rightarrow> nat \<Rightarrow> bool" where
  "is_digit U c = (if c < 128 then 48 \<le> c \<and> c \<le> 57 else ucd_decimal U c)"

definition is_space :: "ucd \<Rightarrow> nat \<Rightarrow> bool" where
  "is_space U c = (if c < 128 then (9 \<le> c \<and> c \<le> 13) \<or> (28 \<le> c \<and> c \<le> 32) else ucd_space U c)"

definition icase :: "ucd \<Rightarrow> char \<Rightarrow> nat \<Rightarrow> bool" where
  "icase U letter c =
     (if c < 128 then c = of_char letter \<or> c + 32 = of_char letter
      else ucd_caseless U (of_char letter) c)"

definition quote :: "nat \<Rightarrow> bool" where
  "quote c \<longleftrightarrow> c = 0x22 \<or> c = 0x27"

text \<open>
  \<^verbatim>\<open>RE_CLOZE_NUM = \{\{c(\d+)::\<close>,
  \<^verbatim>\<open>RE_IMG_TAG = <img\s[^>]*?src\s*=\s*["']([^"']+)["'][^>]*?>\<close> (ignoring case),
  \<^verbatim>\<open>RE_HTML_TAG = <[^>]+>\<close>, \<^verbatim>\<open>RE_SOUND_REF = \[sound:([^\]]+)\]\<close> and
  \<^verbatim>\<open>RE_MULTI_NEWLINE = \n{3,}\<close>.
\<close>

definition RE_CLOZE_NUM :: "ucd \<Rightarrow> atom list" where
  "RE_CLOZE_NUM U =
     [Lit CHR ''{'', Lit CHR ''{'', Lit CHR ''c'', GroupOpen, Plus (is_digit U), GroupClose,
      Lit CHR '':'', Lit CHR '':'']"

definition RE_IMG_TAG :: "ucd \<Rightarrow> atom list" where
  "RE_IMG_TAG U =
     [Lit CHR ''<'', One (icase U CHR ''i''), One (icase U CHR ''m''), One (icase U CHR ''g''),
      One (is_space U), LazyStar (\<lambda>c. c \<noteq> of_char CHR ''>''),
      One (icase U CHR ''s''), One (icase U CHR ''r''), One (icase U CHR ''c''),
      Star (is_space U), Lit CHR ''='', Star (is_space U), One quote,
      GroupOpen, Plus (\<lambda>c. \<not> quote c), GroupClose, One quote,
      LazyStar (\<lambda>c. c \<noteq> of_char CHR ''>''), Lit CHR ''>'']"

definition RE_HTML_TAG :: "atom list" where
  "RE_HTML_TAG = [Lit CHR ''<'', Plus (\<lambda>c. c \<noteq> of_char CHR ''>''), Lit CHR ''>'']"

definition RE_SOUND_REF :: "atom list" where
  "RE_SOUND_REF =
     [Lit CHR ''['', Lit CHR ''s'', Lit CHR ''o'', Lit CHR ''u'', Lit CHR ''n'', Lit CHR ''d'', Lit CHR '':'',
      GroupOpen, Plus (\<lambda>c. c \<noteq> of_char CHR '']''), GroupClose, Lit CHR '']'']"

definition RE_MULTI_NEWLINE :: "atom list" where
  "RE_MULTI_NEWLINE = [Rep (\<lambda>c. c = 0x0A) 3 None True]"

text \<open>
  The scan that \<^verbatim>\<open>sub\<close>, \<^verbatim>\<open>findall\<close> and \<^verbatim>\<open>finditer\<close> share: the leftmost match, then
  the leftmost match after it, and so on; the characters in between are kept. Each of the
  five patterns consumes at least one character, so the rule of \<^verbatim>\<open>re\<close> for empty matches
  never applies; the scan steps over the character where a match would be empty.
  \<open>re_findall\<close> returns group 1 of each match, which is what \<^verbatim>\<open>findall\<close> returns for a
  pattern with one group and \<^verbatim>\<open>m.group(1)\<close> over \<^verbatim>\<open>finditer\<close>.
\<close>

datatype piece = Plain nat | Match pystr pystr

function re_scan :: "atom list \<Rightarrow> pystr \<Rightarrow> piece list" where
  "re_scan p [] = []"
| "re_scan p (c # cs) =
     (case re_match p (c # cs) of
        None \<Rightarrow> Plain c # re_scan p cs
      | Some (n, g) \<Rightarrow>
          if n = 0 then Plain c # re_scan p cs
          else Match (take n (c # cs)) g # re_scan p (drop n (c # cs)))"
  by pat_completeness auto
termination
  by (relation "measure (\<lambda>(p, s). length s)") auto

definition re_sub :: "atom list \<Rightarrow> pystr \<Rightarrow> pystr \<Rightarrow> pystr" where
  "re_sub p repl s =
     concat (map (\<lambda>x. case x of Plain c \<Rightarrow> [c] | Match m g \<Rightarrow> repl) (re_scan p s))"

definition re_findall :: "atom list \<Rightarrow> pystr \<Rightarrow> pystr list" where
  "re_findall p s = concat (map (\<lambda>x. case x of Plain c \<Rightarrow> [] | Match m g \<Rightarrow> [g]) (re_scan p s))"

section \<open>The text sanitizer\<close>

text \<open>
  \<^verbatim>\<open>clean_text(raw)\<close>. \<open>save_imgs\<close> is \<^verbatim>\<open>RE_IMG_TAG.sub(_save_img, raw)\<close>: each match is
  appended to \<^verbatim>\<open>img_placeholders\<close> and replaced by \<^verbatim>\<open>\x00IMG{i}\x00\<close>, \<open>i\<close> its index in
  the list. \<open>str_replace\<close> is \<^verbatim>\<open>str.replace\<close> for a non-empty \<open>old\<close> (a placeholder is never
  empty). \<open>html_unescape\<close> is \<^verbatim>\<open>html.unescape\<close>, which returns its argument when it has no
  \<^verbatim>\<open>&\<close> and otherwise substitutes the character references; the substitution, with its table
  of entities, is the parameter \<open>charref_sub\<close>.
\<close>

definition placeholder :: "nat \<Rightarrow> pystr" where
  "placeholder i = 0 # ustr ''IMG'' @ py_str i @ [0]"

fun save_imgs :: "piece list \<Rightarrow> pystr list \<Rightarrow> pystr \<times> pystr list" where
  "save_imgs [] img_placeholders = ([], img_placeholders)"
| "save_imgs (Plain c # ps) img_placeholders =
     (let (text, imgs) = save_imgs ps img_placeholders in (c # text, imgs))"
| "save_imgs (Match m g # ps) img_placeholders =
     (let (text, imgs) = save_imgs ps (img_placeholders @ [m])
      in (placeholder (length img_placeholders) @ text, imgs))"

function str_replace :: "pystr \<Rightarrow> pystr \<Rightarrow> pystr \<Rightarrow> pystr" where
  "str_replace old new [] = []"
| "str_replace old new (c # cs) =
     (if old \<noteq> [] \<and> take (length old) (c # cs) = old
      then new @ str_replace old new (drop (length old) (c # cs))
      else c # str_replace old new cs)"
  by pat_completeness auto
termination
  by (relation "measure (\<lambda>(old, new, s). length s)") auto

fun restore_imgs :: "nat \<Rightarrow> pystr list \<Rightarrow> pystr \<Rightarrow> pystr" where
  "restore_imgs i [] text = text"
| "restore_imgs i (img # imgs) text = restore_imgs (i + 1) imgs (str_replace (placeholder i) img text)"

definition html_unescape :: "(pystr \<Rightarrow> pystr) \<Rightarrow> pystr \<Rightarrow> pystr" where
  "html_unescape charref_sub s = (if of_char CHR ''&'' \<notin> set s then s else charref_sub s)"

definition strip :: "ucd \<Rightarrow> pystr \<Rightarrow> pystr" where
  "strip U s = rev (dropWhile (is_space U) (rev (dropWhile (is_space U) s)))"

definition clean_text :: "ucd \<Rightarrow> (pystr \<Rightarrow> pystr) \<Rightarrow> pystr \<Rightarrow> pystr" where
  "clean_text U charref_sub raw =
     (let (text, img_placeholders) = save_imgs (re_scan (RE_IMG_TAG U) raw) [];
          text = html_unescape charref_sub text;
          text = re_sub RE_HTML_TAG [] text;
          text = restore_imgs 0 img_placeholders text;
          text = strip U text;
          text = re_sub RE_MULTI_NEWLINE [0x0A, 0x0A] text
      in text)"

text \<open>\<^verbatim>\<open>count_cloze_numbers(text)\<close> is \<^verbatim>\<open>len(set(RE_CLOZE_NUM.findall(text)))\<close>.\<close>

definition count_cloze_numbers :: "ucd \<Rightarrow> pystr \<Rightarrow> nat" where
  "count_cloze_numbers U text = length (remdups (re_findall (RE_CLOZE_NUM U) text))"

text \<open>
  \<^verbatim>\<open>is_one_by_one_truthy\<close> and \<^verbatim>\<open>collect_media_refs\<close>. A Python set of strings is a list
  without duplicates, \<^verbatim>\<open>refs.update(xs)\<close> is \<open>List.union xs refs\<close>; the order in which Python
  iterates over a set is not specified, and nothing below depends on the order this list
  has.
\<close>

definition lower_char :: "ucd \<Rightarrow> nat \<Rightarrow> pystr" where
  "lower_char U c =
     (if 65 \<le> c \<and> c \<le> 90 then [c + 32] else if c < 128 then [c] else ucd_lower U c)"

definition is_one_by_one_truthy :: "ucd \<Rightarrow> pystr \<Rightarrow> bool" where
  "is_one_by_one_truthy U v =
     (let cleaned = concat (map (lower_char U) (strip U (re_sub RE_HTML_TAG [] v)))
      in cleaned \<noteq> [])"

definition collect_media_refs :: "ucd \<Rightarrow> pystr \<Rightarrow> pystr \<Rightarrow> pystr list" where
  "collect_media_refs U text extra =
     fold (\<lambda>field refs.
             List.union (re_findall RE_SOUND_REF field)
               (List.union (re_findall (RE_IMG_TAG U) field) refs))
       [text, extra] []"

section \<open>The note transformer\<close>

text \<open>
  \<^verbatim>\<open>flds.split(FIELD_SEP)\<close> and indexing a list at a non-negative constant, which raises
  \<^verbatim>\<open>IndexError\<close> out of range.
\<close>

fun split :: "nat \<Rightarrow> pystr \<Rightarrow> pystr list" where
  "split sep [] = [[]]"
| "split sep (c # cs) =
     (if c = sep then [] # split sep cs
      else (case split sep cs of [] \<Rightarrow> [[c]] | w # ws \<Rightarrow> (c # w) # ws))"

definition FIELD_SEP :: nat where "FIELD_SEP = 0x1F"
definition IDX_TEXT :: nat where "IDX_TEXT = 0"
definition IDX_EXTRA :: nat where "IDX_EXTRA = 1"
definition IDX_ONE_BY_ONE :: nat where "IDX_ONE_BY_ONE = 16"

definition py_index :: "'a list \<Rightarrow> nat \<Rightarrow> error + 'a" where
  "py_index xs i = (if i < length xs then Inr (xs ! i) else Inl IndexError)"

text \<open>
  A row of the query is \<open>(id, flds, tags)\<close>; a normalized note is the tuple appended to
  \<^verbatim>\<open>notes\<close>, with the columns of the output table as fields. \<open>transform_note\<close> is the
  body of the loop over the rows (lines 176 to 193), \<open>transform_all\<close> the loop.
\<close>

record norm_note =
  note_id :: int
  note_text :: pystr
  note_extra :: pystr
  num_cards :: nat
  one_by_one :: nat
  note_tags :: pystr

type_synonym row = "int \<times> pystr \<times> pystr"

fun transform_note ::
  "ucd \<Rightarrow> (pystr \<Rightarrow> pystr) \<Rightarrow> row \<Rightarrow> pystr list \<Rightarrow> error + (norm_note \<times> pystr list)" where
  "transform_note U charref_sub (nid, flds, tags) all_media_refs =
     (let fields = split FIELD_SEP flds in
      (case py_index fields IDX_TEXT of
         Inl e \<Rightarrow> Inl e
       | Inr raw_text \<Rightarrow>
           (case py_index fields IDX_EXTRA of
              Inl e \<Rightarrow> Inl e
            | Inr raw_extra \<Rightarrow>
                (let raw_one_by_one =
                       (if length fields > IDX_ONE_BY_ONE then fields ! IDX_ONE_BY_ONE else []);
                     text = clean_text U charref_sub raw_text;
                     extra = clean_text U charref_sub raw_extra;
                     cards = count_cloze_numbers U raw_text;
                     obo = (if is_one_by_one_truthy U raw_one_by_one then 1 else 0);
                     refs1 = List.union (collect_media_refs U text extra) all_media_refs;
                     refs2 = List.union (collect_media_refs U raw_text raw_extra) refs1
                 in Inr (\<lparr>note_id = nid, note_text = text, note_extra = extra, num_cards = cards,
                           one_by_one = obo, note_tags = tags\<rparr>, refs2)))))"

declare transform_note.simps [simp del]

fun transform_all ::
  "ucd \<Rightarrow> (pystr \<Rightarrow> pystr) \<Rightarrow> row list \<Rightarrow> norm_note list \<Rightarrow> pystr list
     \<Rightarrow> error + (norm_note list \<times> pystr list)" where
  "transform_all U charref_sub [] notes all_media_refs = Inr (notes, all_media_refs)"
| "transform_all U charref_sub (r # rows) notes all_media_refs =
     (case transform_note U charref_sub r all_media_refs of
        Inl e \<Rightarrow> Inl e
      | Inr (n, refs) \<Rightarrow> transform_all U charref_sub rows (notes @ [n]) refs)"

section \<open>The container loader and the run\<close>

text \<open>
  The opened archive is a map from entry names to contents: a name is in
  \<^verbatim>\<open>zf.namelist()\<close> when the map has it, and \<^verbatim>\<open>zf.read(name)\<close> on a missing name raises
  \<^verbatim>\<open>KeyError\<close>. The package file is either missing or a readable zip archive; a file that
  is not one is outside the model. The part of the file system the run touches is a
  record: the temporary file made by \<^verbatim>\<open>NamedTemporaryFile(delete=False)\<close> (its content,
  \<open>None\<close> when the file does not exist), the output directory, the table
  \<^verbatim>\<open>source_notes\<close> of the output database (\<open>None\<close>: no such table) and the media directory
  (\<open>None\<close>: no such directory).

  \<open>extract_collection_db\<close> creates the temporary file empty, then writes to it; only the
  branch that finds no database closes and unlinks it before raising.
\<close>

type_synonym zipfile = "pystr \<rightharpoonup> bytes"

record world =
  tmp_db :: "bytes option"
  output_dir :: bool
  source_notes :: "norm_note list option"
  media_dir :: "(pystr \<times> bytes) list option"

definition extract_collection_db ::
  "(bytes \<Rightarrow> bytes option) \<Rightarrow> zipfile \<Rightarrow> world \<Rightarrow> (error + unit) \<times> world" where
  "extract_collection_db zstd_decompress zf w =
     (let w = w\<lparr>tmp_db := Some []\<rparr> in
      case zf (ustr ''collection.anki21b'') of
        Some compressed \<Rightarrow>
          (case zstd_decompress compressed of
             None \<Rightarrow> (Inl ZstdError, w)
           | Some decompressed \<Rightarrow> (Inr (), w\<lparr>tmp_db := Some decompressed\<rparr>))
      | None \<Rightarrow>
          (case zf (ustr ''collection.anki2'') of
             Some legacy \<Rightarrow> (Inr (), w\<lparr>tmp_db := Some legacy\<rparr>)
           | None \<Rightarrow> (Inl ValueError, w\<lparr>tmp_db := None\<rparr>)))"

text \<open>
  The stages of \<^verbatim>\<open>main\<close>. \<open>query_records\<close> is the \<^verbatim>\<open>try\<close> block with its \<^verbatim>\<open>finally\<close>:
  the query on the temporary database (the parameter \<open>env_query\<close>, \<open>None\<close> when sqlite
  raises), then the unlink, whatever the query did. \<open>write_notes\<close> creates the output
  directory, drops and recreates the table and inserts the notes; the insert of a second
  note with the same primary key raises and nothing of it is committed. \<open>extract_media\<close>
  decodes the manifest, inverts it, and copies the referenced files into the emptied media
  directory. The environment holds the library functions and tables the run is
  parameterised by.
\<close>

record env =
  env_zstd :: "bytes \<Rightarrow> bytes option"
  env_utf8 :: "bytes \<Rightarrow> pystr option"
  env_ucd :: ucd
  env_charref :: "pystr \<Rightarrow> pystr"
  env_query :: "bytes \<Rightarrow> row list option"

definition query_records :: "env \<Rightarrow> world \<Rightarrow> (error + row list) \<times> world" where
  "query_records env w =
     (let rows = (case tmp_db w of None \<Rightarrow> None | Some db \<Rightarrow> env_query env db)
      in (case rows of None \<Rightarrow> Inl DatabaseError | Some rs \<Rightarrow> Inr rs, w\<lparr>tmp_db := None\<rparr>))"

definition write_notes :: "norm_note list \<Rightarrow> world \<Rightarrow> (error + unit) \<times> world" where
  "write_notes notes w =
     (if distinct (map note_id notes)
      then (Inr (), w\<lparr>output_dir := True, source_notes := Some notes\<rparr>)
      else (Inl DatabaseError, w\<lparr>output_dir := True, source_notes := Some []\<rparr>))"

definition invert_manifest :: "(pystr \<times> pystr) list \<Rightarrow> (pystr \<times> pystr) list" where
  "invert_manifest manifest = fold (\<lambda>kv acc. AList.update (snd kv) (fst kv) acc) manifest []"

fun copy_media ::
  "zipfile \<Rightarrow> (pystr \<times> pystr) list \<Rightarrow> pystr list \<Rightarrow> (pystr \<times> bytes) list
     \<Rightarrow> (error + unit) \<times> (pystr \<times> bytes) list" where
  "copy_media zf filename_to_entry [] dir = (Inr (), dir)"
| "copy_media zf filename_to_entry (filename # rest) dir =
     (case map_of filename_to_entry filename of
        None \<Rightarrow> (Inl KeyError, dir)
      | Some entry_num \<Rightarrow>
          (case zf entry_num of
             None \<Rightarrow> (Inl KeyError, dir)
           | Some data \<Rightarrow> copy_media zf filename_to_entry rest (AList.update filename data dir)))"

definition extract_media :: "env \<Rightarrow> zipfile \<Rightarrow> pystr list \<Rightarrow> world \<Rightarrow> (error + unit) \<times> world" where
  "extract_media env zf all_media_refs w =
     (case zf (ustr ''media'') of
        None \<Rightarrow> (Inl KeyError, w)
      | Some data \<Rightarrow>
          (case parse_media_manifest (env_zstd env) (env_utf8 env) data of
             Inl e \<Rightarrow> (Inl e, w)
           | Inr manifest \<Rightarrow>
               (let filename_to_entry = invert_manifest manifest;
                    referenced = filter (\<lambda>f. f \<in> set (map fst filename_to_entry)) all_media_refs;
                    copied = copy_media zf filename_to_entry referenced []
                in (fst copied, w\<lparr>media_dir := Some (snd copied)\<rparr>))))"

definition main :: "env \<Rightarrow> zipfile option \<Rightarrow> world \<Rightarrow> (error + unit) \<times> world" where
  "main env apkg w =
     (case apkg of
        None \<Rightarrow> (Inl FileNotFoundError, w)
      | Some zf \<Rightarrow>
          (case extract_collection_db (env_zstd env) zf w of
             (Inl e, w1) \<Rightarrow> (Inl e, w1)
           | (Inr u, w1) \<Rightarrow>
               (case query_records env w1 of
                  (Inl e, w2) \<Rightarrow> (Inl e, w2)
                | (Inr rows, w2) \<Rightarrow>
                    (case transform_all (env_ucd env) (env_charref env) rows [] [] of
                       Inl e \<Rightarrow> (Inl e, w2)
                     | Inr (notes, all_media_refs) \<Rightarrow>
                         (case write_notes notes w2 of
                            (Inl e, w3) \<Rightarrow> (Inl e, w3)
                          | (Inr u, w3) \<Rightarrow> extract_media env zf all_media_refs w3)))))"

text \<open>
  An environment and an archive to run the pipeline on. \<open>ascii_ucd\<close> stands for the
  Unicode tables: it has nothing beyond ASCII (no digit, no whitespace, no case pair from
  128 on), which is all the same on the ASCII texts of the examples.
\<close>

definition ascii_ucd :: ucd where
  "ascii_ucd =
     \<lparr>ucd_decimal = (\<lambda>c. False), ucd_space = (\<lambda>c. False), ucd_caseless = (\<lambda>x c. False),
      ucd_lower = (\<lambda>c. [c])\<rparr>"

definition example_env :: env where
  "example_env =
     \<lparr>env_zstd = zstd_stub, env_utf8 = decode_ascii, env_ucd = ascii_ucd,
      env_charref = (\<lambda>s. s),
      env_query = (\<lambda>db. if db = [0x53, 0x51, 0x4C]
                          then Some [(5, ustr ''{{c1::a}} <img src='c'>'' @ [FIELD_SEP] @ ustr ''<b>x</b>'',
                                      ustr ''t'')]
                          else None)\<rparr>"

definition example_apkg :: zipfile where
  "example_apkg =
     [ustr ''collection.anki21b'' \<mapsto> [0x28, 0xB5, 0x2F, 0xFD, 0x53, 0x51, 0x4C],
      ustr ''media'' \<mapsto> [0x28, 0xB5, 0x2F, 0xFD, 0x0A, 0x03, 0x0A, 0x01, 0x63],
      ustr ''0'' \<mapsto> [7, 7]]"

definition fresh_world :: world where
  "fresh_world = \<lparr>tmp_db = None, output_dir = False, source_notes = None, media_dir = None\<rparr>"

definition used_world :: world where
  "used_world =
     \<lparr>tmp_db = None, output_dir = True,
      source_notes = Some [\<lparr>note_id = 1, note_text = ustr ''old'', note_extra = [], num_cards = 0,
                            one_by_one = 0, note_tags = []\<rparr>],
      media_dir = Some [(ustr ''old.png'', [1])]\<rparr>"

section \<open>Properties of the container loader\<close>

text \<open>
  C5. The loader prefers the newer entry: when \<^verbatim>\<open>collection.anki21b\<close> is present and
  decompresses, the database bytes written are its decompressed content, whether or not
  \<^verbatim>\<open>collection.anki2\<close> is present too; when only \<^verbatim>\<open>collection.anki2\<close> is present, they
  are its bytes unchanged.
\<close>

theorem extract_collection_db_prefers_newer:
  "(zf (ustr ''collection.anki21b'') = Some compressed \<and> zstd_decompress compressed = Some decompressed \<longrightarrow>
      extract_collection_db zstd_decompress zf w = (Inr (), w\<lparr>tmp_db := Some decompressed\<rparr>))
   \<and> (zf (ustr ''collection.anki21b'') = None \<and> zf (ustr ''collection.anki2'') = Some legacy \<longrightarrow>
      extract_collection_db zstd_decompress zf w = (Inr (), w\<lparr>tmp_db := Some legacy\<rparr>))"
  by (simp add: extract_collection_db_def)

theorem extract_collection_db_prefers_newer_witness:
  "extract_collection_db zstd_stub
     [ustr ''collection.anki21b'' \<mapsto> [0x28, 0xB5, 0x2F, 0xFD, 1, 2, 3],
      ustr ''collection.anki2'' \<mapsto> [9]]
     fresh_world = (Inr (), fresh_world\<lparr>tmp_db := Some [1, 2, 3]\<rparr>)
   \<and> extract_collection_db zstd_stub [ustr ''collection.anki2'' \<mapsto> [9, 8]] fresh_world =
       (Inr (), fresh_world\<lparr>tmp_db := Some [9, 8]\<rparr>)"
proof -
  let ?zf1 = "[ustr ''collection.anki21b'' \<mapsto> [0x28, 0xB5, 0x2F, 0xFD, 1, 2, 3],
               ustr ''collection.anki2'' \<mapsto> [9]] :: zipfile"
  let ?zf2 = "[ustr ''collection.anki2'' \<mapsto> [9, 8]] :: zipfile"
  have "?zf1 (ustr ''collection.anki21b'') = Some [0x28, 0xB5, 0x2F, 0xFD, 1, 2, 3]
        \<and> zstd_stub [0x28, 0xB5, 0x2F, 0xFD, 1, 2, 3] = Some [1, 2, 3]"
    by (simp add: zstd_stub_def ustr_def)
  with extract_collection_db_prefers_newer
         [of ?zf1 "[0x28, 0xB5, 0x2F, 0xFD, 1, 2, 3]" zstd_stub "[1, 2, 3]" fresh_world]
  have a: "extract_collection_db zstd_stub ?zf1 fresh_world =
             (Inr (), fresh_world\<lparr>tmp_db := Some [1, 2, 3]\<rparr>)"
    by blast
  have "?zf2 (ustr ''collection.anki21b'') = None \<and> ?zf2 (ustr ''collection.anki2'') = Some [9, 8]"
    by (simp add: ustr_def)
  with extract_collection_db_prefers_newer [of ?zf2 _ zstd_stub _ fresh_world "[9, 8]"]
  have b: "extract_collection_db zstd_stub ?zf2 fresh_world =
             (Inr (), fresh_world\<lparr>tmp_db := Some [9, 8]\<rparr>)"
    by blast
  from a b show ?thesis by simp
qed

lemma main_no_database:
  assumes "zf (ustr ''collection.anki21b'') = None" and "zf (ustr ''collection.anki2'') = None"
  shows "main env (Some zf) w = (Inl ValueError, w\<lparr>tmp_db := None\<rparr>)"
  using assms by (simp add: main_def extract_collection_db_def)

text \<open>
  C6. The loader raises \<^verbatim>\<open>ValueError\<close> (no collection database found) exactly when the
  archive has neither entry, and then the run ends with that error, the temporary file
  removed, and the output directory, the output table and the media directory as they
  were.
\<close>

theorem no_database_aborts_before_output:
  "(fst (extract_collection_db zstd_decompress zf w) = Inl ValueError \<longleftrightarrow>
      zf (ustr ''collection.anki21b'') = None \<and> zf (ustr ''collection.anki2'') = None)
   \<and> (zf (ustr ''collection.anki21b'') = None \<and> zf (ustr ''collection.anki2'') = None \<longrightarrow>
        main env (Some zf) w = (Inl ValueError, w\<lparr>tmp_db := None\<rparr>)
        \<and> output_dir (snd (main env (Some zf) w)) = output_dir w
        \<and> source_notes (snd (main env (Some zf) w)) = source_notes w
        \<and> media_dir (snd (main env (Some zf) w)) = media_dir w)"
proof (intro conjI impI)
  show "fst (extract_collection_db zstd_decompress zf w) = Inl ValueError \<longleftrightarrow>
      zf (ustr ''collection.anki21b'') = None \<and> zf (ustr ''collection.anki2'') = None"
    by (auto simp: extract_collection_db_def Let_def split: option.splits)
next
  assume a: "zf (ustr ''collection.anki21b'') = None \<and> zf (ustr ''collection.anki2'') = None"
  then have m: "main env (Some zf) w = (Inl ValueError, w\<lparr>tmp_db := None\<rparr>)"
    by (simp add: main_no_database)
  show "main env (Some zf) w = (Inl ValueError, w\<lparr>tmp_db := None\<rparr>)" by (rule m)
  show "output_dir (snd (main env (Some zf) w)) = output_dir w" by (simp add: m)
  show "source_notes (snd (main env (Some zf) w)) = source_notes w" by (simp add: m)
  show "media_dir (snd (main env (Some zf) w)) = media_dir w" by (simp add: m)
qed

theorem no_database_aborts_before_output_witness:
  "main example_env (Some [ustr ''media'' \<mapsto> [0x28, 0xB5, 0x2F, 0xFD], ustr ''0'' \<mapsto> [7, 7]]) used_world =
     (Inl ValueError, used_world)"
proof -
  let ?zf = "[ustr ''media'' \<mapsto> [0x28, 0xB5, 0x2F, 0xFD], ustr ''0'' \<mapsto> [7, 7]] :: zipfile"
  have "?zf (ustr ''collection.anki21b'') = None \<and> ?zf (ustr ''collection.anki2'') = None"
    by (simp add: ustr_def)
  with no_database_aborts_before_output [of zstd_stub ?zf used_world example_env]
  have "main example_env (Some ?zf) used_world = (Inl ValueError, used_world\<lparr>tmp_db := None\<rparr>)"
    by blast
  then show ?thesis by (simp add: used_world_def)
qed

text \<open>
  C7. When \<^verbatim>\<open>pyzstd.decompress\<close> raises inside \<open>extract_collection_db\<close>, the temporary
  file has been created and is neither closed nor unlinked: the run ends with the file
  left behind, empty. On the successful run and on the run without a database the file
  is gone at the end.
\<close>

theorem tmp_db_left_behind_on_decompress_failure:
  "main example_env (Some (example_apkg(ustr ''collection.anki21b'' \<mapsto> [0x00]))) fresh_world =
     (Inl ZstdError, fresh_world\<lparr>tmp_db := Some []\<rparr>)
   \<and> tmp_db (snd (main example_env (Some example_apkg) fresh_world)) = None
   \<and> tmp_db (snd (main example_env
        (Some (example_apkg(ustr ''collection.anki21b'' := None))) fresh_world)) = None"
  by code_simp

section \<open>Properties of the note transformer\<close>

lemma split_nonempty: "split sep s \<noteq> []"
  by (induction s) (auto split: list.splits)

lemma split_no_sep: "sep \<notin> set s \<Longrightarrow> split sep s = [s]"
  by (induction s) auto

lemma split_with_sep: "sep \<in> set s \<Longrightarrow> 2 \<le> length (split sep s)"
proof (induction s)
  case Nil
  then show ?case by simp
next
  case (Cons c cs)
  show ?case
  proof (cases "c = sep")
    case True
    have "1 \<le> length (split sep cs)"
      using split_nonempty [of sep cs] by (cases "split sep cs") simp_all
    with True show ?thesis by simp
  next
    case False
    with Cons.prems have "sep \<in> set cs" by simp
    then have "2 \<le> length (split sep cs)" by (rule Cons.IH)
    with False show ?thesis by (auto split: list.splits)
  qed
qed

lemma is_one_by_one_truthy_empty: "\<not> is_one_by_one_truthy U []"
  by (simp add: is_one_by_one_truthy_def re_sub_def strip_def)

text \<open>
  C10. A fields string splits into fewer than two fields exactly when it holds no
  separator. Then the text field at position 0 is the whole string, the read of the extra
  field at position 1 is out of range, and the transformation of the note raises
  \<^verbatim>\<open>IndexError\<close>. With a separator the transformation returns a note, and a record of at
  most 16 fields has no field at position 16: the marker is read as empty and
  \<open>one_by_one\<close> is 0. Only that read is guarded by the length of the record.
\<close>

theorem transform_note_short_record:
  "(length (split FIELD_SEP flds) < 2 \<longleftrightarrow> FIELD_SEP \<notin> set flds)
   \<and> (FIELD_SEP \<notin> set flds \<longrightarrow>
        py_index (split FIELD_SEP flds) IDX_TEXT = Inr flds
        \<and> py_index (split FIELD_SEP flds) IDX_EXTRA = Inl IndexError
        \<and> transform_note U charref_sub (nid, flds, tags) all_media_refs = Inl IndexError)
   \<and> (FIELD_SEP \<in> set flds \<longrightarrow>
        (\<exists>n refs. transform_note U charref_sub (nid, flds, tags) all_media_refs = Inr (n, refs)
           \<and> (length (split FIELD_SEP flds) \<le> IDX_ONE_BY_ONE \<longrightarrow> one_by_one n = 0)))"
proof (intro conjI impI)
  show "length (split FIELD_SEP flds) < 2 \<longleftrightarrow> FIELD_SEP \<notin> set flds"
    using split_no_sep [of FIELD_SEP flds] split_with_sep [of FIELD_SEP flds]
    by (cases "FIELD_SEP \<in> set flds") auto
next
  assume "FIELD_SEP \<notin> set flds"
  then have one: "split FIELD_SEP flds = [flds]" by (rule split_no_sep)
  show "py_index (split FIELD_SEP flds) IDX_TEXT = Inr flds"
    by (simp add: one py_index_def IDX_TEXT_def)
  show "py_index (split FIELD_SEP flds) IDX_EXTRA = Inl IndexError"
    by (simp add: one py_index_def IDX_EXTRA_def)
  show "transform_note U charref_sub (nid, flds, tags) all_media_refs = Inl IndexError"
    by (simp add: transform_note.simps one py_index_def IDX_TEXT_def IDX_EXTRA_def)
next
  assume "FIELD_SEP \<in> set flds"
  then have two: "2 \<le> length (split FIELD_SEP flds)" by (rule split_with_sep)
  let ?fields = "split FIELD_SEP flds"
  have t: "py_index ?fields IDX_TEXT = Inr (?fields ! 0)"
    and e: "py_index ?fields IDX_EXTRA = Inr (?fields ! 1)"
    using two by (simp_all add: py_index_def IDX_TEXT_def IDX_EXTRA_def split_nonempty)
  show "\<exists>n refs. transform_note U charref_sub (nid, flds, tags) all_media_refs = Inr (n, refs)
           \<and> (length (split FIELD_SEP flds) \<le> IDX_ONE_BY_ONE \<longrightarrow> one_by_one n = 0)"
    by (simp add: transform_note.simps t e Let_def is_one_by_one_truthy_empty)
qed

theorem transform_note_short_record_witness:
  "transform_note ascii_ucd (\<lambda>s. s) (5, ustr ''no separator here'', ustr ''tag'') [] = Inl IndexError
   \<and> (\<exists>n refs. transform_note ascii_ucd (\<lambda>s. s)
                  (5, ustr ''text'' @ [FIELD_SEP] @ ustr ''extra'', ustr ''tag'') [] = Inr (n, refs)
         \<and> one_by_one n = 0)"
proof -
  have "FIELD_SEP \<notin> set (ustr ''no separator here'')"
    by (simp add: FIELD_SEP_def ustr_def)
  with transform_note_short_record [of "ustr ''no separator here''" ascii_ucd "\<lambda>s. s" 5 "ustr ''tag''" "[]"]
  have a: "transform_note ascii_ucd (\<lambda>s. s) (5, ustr ''no separator here'', ustr ''tag'') [] = Inl IndexError"
    by blast
  let ?flds = "ustr ''text'' @ [FIELD_SEP] @ ustr ''extra''"
  have "FIELD_SEP \<in> set ?flds" and "length (split FIELD_SEP ?flds) \<le> IDX_ONE_BY_ONE"
    by (simp_all add: FIELD_SEP_def IDX_ONE_BY_ONE_def ustr_def)
  with transform_note_short_record [of ?flds ascii_ucd "\<lambda>s. s" 5 "ustr ''tag''" "[]"]
  have "\<exists>n refs. transform_note ascii_ucd (\<lambda>s. s) (5, ?flds, ustr ''tag'') [] = Inr (n, refs)
          \<and> one_by_one n = 0"
    by blast
  with a show ?thesis by simp
qed

section \<open>Properties of the matcher\<close>

text \<open>
  A greedy repetition whose smaller counts all fail is decided by its largest count, and a
  literal consumes exactly one character.
\<close>

lemma first_some_all_None: "\<forall>x\<in>set xs. f x = None \<Longrightarrow> first_some f xs = None"
  by (induction xs) simp_all

lemma first_some_greedy:
  assumes "\<forall>k. lo \<le> k \<and> k < hi \<longrightarrow> f k = None"
  shows "first_some f (candidates lo hi True) = (if lo \<le> hi then f hi else None)"
proof (cases "lo \<le> hi")
  case True
  then have "candidates lo hi True = hi # rev [lo..<hi]"
    by (simp add: candidates_def)
  moreover have "first_some f (rev [lo..<hi]) = None"
    using assms by (intro first_some_all_None) simp
  ultimately show ?thesis
    using True by (simp split: option.splits)
next
  case False
  then show ?thesis by (simp add: candidates_def)
qed

lemma match_atoms_Lit:
  "match_atoms (Lit c # r) s pos g =
     (case s of [] \<Rightarrow> None | x # xs \<Rightarrow> if x = of_char c then match_atoms r xs (pos + 1) g else None)"
proof (cases s)
  case Nil
  then show ?thesis by (simp add: candidates_def match_atoms.simps(4))
next
  case (Cons x xs)
  show ?thesis
  proof (cases "x = of_char c")
    case True
    then have "min (length (takeWhile (\<lambda>x. x = of_char c) s)) 1 = 1"
      using Cons by simp
    then show ?thesis
      using Cons True by (simp add: candidates_def match_atoms.simps(4) split: option.splits)
  next
    case False
    then show ?thesis using Cons by (simp add: candidates_def match_atoms.simps(4))
  qed
qed

section \<open>Properties of the text sanitizer\<close>











































text \<open>
  The example of the specification holds, whatever the Unicode tables and the entity
  table are. Image markup does not survive in every field: a \<^verbatim>\<open><\<close> in the text before an
  image opens a tag for \<^verbatim>\<open>RE_HTML_TAG\<close> that runs to the first \<^verbatim>\<open>>\<close>, which may lie after
  the image, and the placeholder is removed with it; a run of newlines inside an image
  element is collapsed by the last stage; and the text \<^verbatim>\<open>IMG0\<close> between two later images
  is taken for the placeholder of the first image.
\<close>

lemma clean_text_spec_example:
  "clean_text U charref_sub (ustr ''<p>See <img src='x.png'> here</p>'') =
   ustr ''See <img src='x.png'> here''"
  by code_simp

lemma clean_text_newlines_inside_image:
  "clean_text ascii_ucd (\<lambda>s. s) (ustr ''<img src='x.png' '' @ [10, 10, 10] @ ustr ''>'') =
   ustr ''<img src='x.png' '' @ [10, 10] @ ustr ''>''"
  by code_simp

lemma clean_text_placeholder_collision:
  "clean_text ascii_ucd (\<lambda>s. s) (ustr ''<img src='a.png'><img src='b.png'>IMG0<img src='c.png'>'') =
   ustr ''<img src='a.png'>'' @ [0] @ ustr ''IMG1<img src='a.png'>IMG2'' @ [0]"
  by code_simp




section \<open>Properties of cloze counting\<close>

text \<open>
  A cloze-group number as it is written in the text: a non-empty run of decimal digits.
  Two numbers are the same when they are written the same (\<open>1\<close> and \<open>01\<close> are two).
\<close>

definition cloze_number :: "ucd \<Rightarrow> pystr \<Rightarrow> bool" where
  "cloze_number U N \<longleftrightarrow> N \<noteq> [] \<and> (\<forall>c\<in>set N. is_digit U c)"

text \<open>
  What the matcher does on \<^verbatim>\<open>\{\{c(\d+)::\<close>: a literal consumes one character; the greedy
  run of digits cannot give a digit back, since a colon must follow it. A match
  \<^verbatim>\<open>{{cN::\<close> holds one opening brace pair only, at its start, so no other match begins
  inside it and skipping over a match loses none.
\<close>

lemma colon_not_digit: "\<not> is_digit U (of_char CHR '':'')"
  and brace_not_digit: "\<not> is_digit U (of_char CHR ''{'')"
  by (simp_all add: is_digit_def)

lemma match_digits_colons:
  "match_atoms [Plus (is_digit U), GroupClose, Lit CHR '':'', Lit CHR '':''] t pos g =
     (let n = length (takeWhile (is_digit U) t)
      in if 1 \<le> n \<and> take 2 (drop n t) = ustr ''::'' then Some (pos + n + 2, fst g, pos + n) else None)"
proof -
  let ?n = "length (takeWhile (is_digit U) t)"
  let ?f = "\<lambda>k. match_atoms [GroupClose, Lit CHR '':'', Lit CHR '':''] (drop k t) (pos + k) g"
  have f: "?f k = (if take 2 (drop k t) = ustr ''::'' then Some (pos + k + 2, fst g, pos + k) else None)" for k
  proof -
    have "?f k =
      (case drop k t of [] \<Rightarrow> None
       | x # xs \<Rightarrow>
           if x = of_char CHR '':'' then
             (case xs of [] \<Rightarrow> None
              | y # ys \<Rightarrow> if y = of_char CHR '':'' then Some (pos + k + 1 + 1, fst g, pos + k) else None)
           else None)"
      by (simp only: match_atoms.simps(1-3) match_atoms_Lit fst_conv snd_conv)
    then show ?thesis by (auto simp: ustr_def split: list.splits)
  qed
  have none: "\<forall>k. 1 \<le> k \<and> k < ?n \<longrightarrow> ?f k = None"
  proof (intro allI impI)
    fix k assume k: "1 \<le> k \<and> k < ?n"
    then have "is_digit U (t ! k)"
      by (metis nth_length_takeWhile takeWhile_nth length_takeWhile_le less_le_trans nth_mem set_takeWhileD)
    moreover have "k < length t"
      using k length_takeWhile_le [of "is_digit U" t] by linarith
    ultimately have "hd (drop k t) \<noteq> of_char CHR '':''"
      using colon_not_digit [of U] by (auto simp: hd_drop_conv_nth)
    moreover have "drop k t \<noteq> []" using \<open>k < length t\<close> by simp
    ultimately have "take 2 (drop k t) \<noteq> ustr ''::''"
      by (cases "drop k t") (auto simp: ustr_def)
    then show "?f k = None" by (simp only: f if_False)
  qed
  have "match_atoms [Plus (is_digit U), GroupClose, Lit CHR '':'', Lit CHR '':''] t pos g =
        first_some ?f (candidates 1 ?n True)"
    by (simp add: match_atoms.simps(4))
  also have "\<dots> = (if 1 \<le> ?n then ?f ?n else None)"
    using none by (rule first_some_greedy)
  finally show ?thesis by (simp only: f Let_def) auto
qed

lemma re_match_cloze:
  "re_match (RE_CLOZE_NUM U) s =
     (if take 3 s = ustr ''{{c'' then
        (let t = drop 3 s; n = length (takeWhile (is_digit U) t)
         in if 1 \<le> n \<and> take 2 (drop n t) = ustr ''::'' then Some (n + 5, take n t) else None)
      else None)"
proof (cases "take 3 s = ustr ''{{c''")
  case True
  then obtain t where s: "s = of_char CHR ''{'' # of_char CHR ''{'' # of_char CHR ''c'' # t"
    by (cases s; cases "tl s"; cases "tl (tl s)") (auto simp: ustr_def)
  have "match_atoms (RE_CLOZE_NUM U) s 0 (0, 0) =
        match_atoms [Plus (is_digit U), GroupClose, Lit CHR '':'', Lit CHR '':''] t 3 (3, 0)"
    unfolding RE_CLOZE_NUM_def s
    by (simp only: match_atoms_Lit match_atoms.simps(1-3) list.case if_True fst_conv snd_conv)
      (simp add: numeral_3_eq_3)
  then have "match_atoms (RE_CLOZE_NUM U) s 0 (0, 0) =
      (let n = length (takeWhile (is_digit U) t)
       in if 1 \<le> n \<and> take 2 (drop n t) = ustr ''::'' then Some (3 + n + 2, fst (3::nat, 0::nat), 3 + n) else None)"
    by (simp only: match_digits_colons)
  then show ?thesis
    using True by (simp add: re_match_def s Let_def)
next
  case False
  then have "match_atoms (RE_CLOZE_NUM U) s 0 (0, 0) = None"
    unfolding RE_CLOZE_NUM_def
    by (simp only: match_atoms_Lit match_atoms.simps(1-3)) (auto simp: ustr_def split: list.splits)
  with False show ?thesis by (simp add: re_match_def)
qed

lemma re_match_cloze_iff:
  "re_match (RE_CLOZE_NUM U) s = Some (m, N) \<longleftrightarrow>
     cloze_number U N \<and> (\<exists>b. s = ustr ''{{c'' @ N @ ustr ''::'' @ b) \<and> m = length N + 5"
proof
  assume a: "re_match (RE_CLOZE_NUM U) s = Some (m, N)"
  let ?t = "drop 3 s"
  let ?n = "length (takeWhile (is_digit U) ?t)"
  from a have pre: "take 3 s = ustr ''{{c''" and n: "1 \<le> ?n"
    and colons: "take 2 (drop ?n ?t) = ustr ''::''" and m: "m = ?n + 5" and N: "N = take ?n ?t"
    by (auto simp: re_match_cloze Let_def split: if_splits)
  have N': "N = takeWhile (is_digit U) ?t"
    unfolding N by (metis takeWhile_eq_take)
  have "drop ?n ?t = dropWhile (is_digit U) ?t"
    by (metis dropWhile_eq_drop)
  with colons have "dropWhile (is_digit U) ?t = ustr ''::'' @ drop 2 (dropWhile (is_digit U) ?t)"
    by (metis append_take_drop_id)
  then have "?t = N @ ustr ''::'' @ drop 2 (dropWhile (is_digit U) ?t)"
    unfolding N' by (metis takeWhile_dropWhile_id)
  moreover have "s = ustr ''{{c'' @ ?t"
    using pre by (metis append_take_drop_id)
  ultimately have "s = ustr ''{{c'' @ N @ ustr ''::'' @ drop 2 (dropWhile (is_digit U) ?t)"
    by simp
  moreover have "cloze_number U N"
    using n unfolding N' cloze_number_def by (auto dest: set_takeWhileD)
  moreover have "m = length N + 5"
    using m N' by simp
  ultimately show "cloze_number U N \<and> (\<exists>b. s = ustr ''{{c'' @ N @ ustr ''::'' @ b) \<and> m = length N + 5"
    by blast
next
  assume a: "cloze_number U N \<and> (\<exists>b. s = ustr ''{{c'' @ N @ ustr ''::'' @ b) \<and> m = length N + 5"
  then obtain b where s: "s = ustr ''{{c'' @ N @ ustr ''::'' @ b" by blast
  from a have digits: "\<forall>c\<in>set N. is_digit U c" and ne: "N \<noteq> []" and m: "m = length N + 5"
    by (simp_all add: cloze_number_def)
  have t: "drop 3 s = N @ ustr ''::'' @ b" by (simp add: s ustr_def)
  have tw: "takeWhile (is_digit U) (N @ ustr ''::'' @ b) = N"
    using digits colon_not_digit [of U] by (simp add: takeWhile_append2 ustr_def)
  have one: "1 \<le> length N" using ne by (cases N) simp_all
  have pre: "take 3 s = ustr ''{{c''" by (simp add: s ustr_def)
  have c2: "take 2 (drop (length N) (N @ ustr ''::'' @ b)) = ustr ''::''" by (simp add: ustr_def)
  have "re_match (RE_CLOZE_NUM U) s = Some (length N + 5, take (length N) (N @ ustr ''::'' @ b))"
    unfolding re_match_cloze Let_def t tw using pre c2 one by (simp only: if_True simp_thms)
  then show "re_match (RE_CLOZE_NUM U) s = Some (m, N)"
    using m by simp
qed

lemma cloze_match_no_brace:
  assumes "cloze_number U N" and "s = ustr ''{{c'' @ N @ ustr ''::'' @ b" and "2 \<le> i" and "i < length N + 5"
  shows "s ! i \<noteq> of_char CHR ''{''"
proof -
  have s3: "s = ustr ''{{c'' @ ((N @ ustr ''::'') @ b)" using assms(2) by simp
  have l3: "length (ustr ''{{c'') = 3" by (simp add: ustr_def)
  have "s ! i = (N @ ustr ''::'') ! (i - 3)" if "3 \<le> i"
  proof -
    from that obtain k where k: "i = length (ustr ''{{c'') + k" by (auto simp: le_iff_add l3)
    have "s ! i = ((N @ ustr ''::'') @ b) ! k"
      unfolding s3 k by (rule nth_append_length_plus)
    also have "\<dots> = (N @ ustr ''::'') ! k"
      using assms(4) k by (intro nth_append [THEN trans]) (simp add: ustr_def)
    finally show ?thesis using k by (simp add: l3)
  qed
  moreover have "(N @ ustr ''::'') ! j \<noteq> of_char CHR ''{''" if "j < length N + 2" for j
  proof (cases "j < length N")
    case True
    then have "is_digit U ((N @ ustr ''::'') ! j)"
      using assms(1) by (simp add: nth_append cloze_number_def)
    then show ?thesis using brace_not_digit [of U] by auto
  next
    case False
    with that have "j - length N = 0 \<or> j - length N = 1" by linarith
    with False show ?thesis by (auto simp: nth_append ustr_def)
  qed
  moreover have "s ! 2 = of_char CHR ''c''" by (simp add: assms(2) ustr_def)
  ultimately show ?thesis
    using assms(3,4) by (cases "i = 2") auto
qed

lemma cloze_match_no_overlap:
  assumes "re_match (RE_CLOZE_NUM U) s = Some (m, N)" and "0 < j" and "j < m"
  shows "re_match (RE_CLOZE_NUM U) (drop j s) = None"
proof (rule ccontr)
  assume "re_match (RE_CLOZE_NUM U) (drop j s) \<noteq> None"
  then obtain m' N' where "re_match (RE_CLOZE_NUM U) (drop j s) = Some (m', N')" by auto
  then obtain b' where d: "drop j s = ustr ''{{c'' @ N' @ ustr ''::'' @ b'"
    using re_match_cloze_iff by blast
  from assms(1) obtain b where N: "cloze_number U N" and s: "s = ustr ''{{c'' @ N @ ustr ''::'' @ b"
    and m: "m = length N + 5"
    using re_match_cloze_iff by blast
  have "length (drop j s) = length (ustr ''{{c'' @ N' @ ustr ''::'' @ b')"
    by (simp only: d)
  then have len: "j + 1 < length s" by (simp add: ustr_def)
  have "drop j s ! 0 = of_char CHR ''{''" and "drop j s ! 1 = of_char CHR ''{''"
    by (simp_all add: d ustr_def)
  then have b0: "s ! j = of_char CHR ''{''" and b1: "s ! (j + 1) = of_char CHR ''{''"
    using len by simp_all
  show False
  proof (cases "j = 1")
    case True
    have "s ! 2 \<noteq> of_char CHR ''{''" using N s by (rule cloze_match_no_brace) simp_all
    with b1 True show False by (simp add: numeral_2_eq_2)
  next
    case False
    with assms(2) have "2 \<le> j" by linarith
    with N s have "s ! j \<noteq> of_char CHR ''{''"
      using assms(3) m by (intro cloze_match_no_brace) simp_all
    with b0 show False by simp
  qed
qed

lemma re_findall_Nil: "re_findall p [] = []"
  by (simp add: re_findall_def)

lemma re_findall_Cons:
  "re_findall p (c # cs) =
     (case re_match p (c # cs) of
        None \<Rightarrow> re_findall p cs
      | Some (n, g) \<Rightarrow> if n = 0 then re_findall p cs else g # re_findall p (drop n (c # cs)))"
  by (simp add: re_findall_def split: option.splits)

lemma cloze_findall_occurrences:
  "set (re_findall (RE_CLOZE_NUM U) s) =
     {N. \<exists>j m. j \<le> length s \<and> re_match (RE_CLOZE_NUM U) (drop j s) = Some (m, N)}"
proof (induction s rule: length_induct)
  case (1 s)
  let ?occ = "\<lambda>s. {N. \<exists>j m. j \<le> length s \<and> re_match (RE_CLOZE_NUM U) (drop j s) = Some (m, N)}"
  show ?case
  proof (cases s)
    case Nil
    have "re_match (RE_CLOZE_NUM U) [] = None" by (simp add: re_match_cloze ustr_def)
    then show ?thesis using Nil by (simp add: re_findall_Nil)
  next
    case (Cons c cs)
    have tail: "set (re_findall (RE_CLOZE_NUM U) cs) = ?occ cs"
      using 1 Cons by simp
    show ?thesis
    proof (cases "re_match (RE_CLOZE_NUM U) s")
      case None
      have "?occ s = ?occ cs"
      proof (intro set_eqI iffI; clarify)
        fix N j m assume j: "j \<le> length s" "re_match (RE_CLOZE_NUM U) (drop j s) = Some (m, N)"
        with None obtain j' where "j = Suc j'" by (cases j) auto
        with j Cons show "\<exists>j m. j \<le> length cs \<and> re_match (RE_CLOZE_NUM U) (drop j cs) = Some (m, N)"
          by (intro exI [of _ j'] exI [of _ m]) simp
      next
        fix N j m assume "j \<le> length cs" "re_match (RE_CLOZE_NUM U) (drop j cs) = Some (m, N)"
        with Cons show "\<exists>j m. j \<le> length s \<and> re_match (RE_CLOZE_NUM U) (drop j s) = Some (m, N)"
          by (intro exI [of _ "Suc j"] exI [of _ m]) simp
      qed
      with None tail Cons show ?thesis
        by (simp add: re_findall_Cons)
    next
      case (Some r)
      obtain m N where r: "r = (m, N)" by (cases r)
      with Some have match: "re_match (RE_CLOZE_NUM U) s = Some (m, N)" by simp
      then obtain b where N: "cloze_number U N" and s: "s = ustr ''{{c'' @ N @ ustr ''::'' @ b"
        and m: "m = length N + 5"
        using re_match_cloze_iff by blast
      have m_pos: "0 < m" and m_le: "m \<le> length s"
        using m s by (simp_all add: ustr_def)
      have rest: "set (re_findall (RE_CLOZE_NUM U) (drop m s)) = ?occ (drop m s)"
        using 1 m_pos m_le Cons by simp
      have "?occ s = insert N (?occ (drop m s))"
      proof (intro set_eqI iffI)
        fix N' assume "N' \<in> ?occ s"
        then obtain j m' where j: "j \<le> length s" "re_match (RE_CLOZE_NUM U) (drop j s) = Some (m', N')"
          by blast
        show "N' \<in> insert N (?occ (drop m s))"
        proof (cases "j = 0")
          case True
          with j match show ?thesis by simp
        next
          case False
          have "\<not> j < m"
            using cloze_match_no_overlap [OF match, of j] False j(2) by auto
          then have "drop j s = drop (j - m) (drop m s)" and "j - m \<le> length (drop m s)"
            using j(1) by simp_all
          with j(2) have "N' \<in> ?occ (drop m s)" by force
          then show ?thesis by simp
        qed
      next
        fix N' assume "N' \<in> insert N (?occ (drop m s))"
        then consider "N' = N" | "N' \<in> ?occ (drop m s)" by blast
        then show "N' \<in> ?occ s"
        proof cases
          case 1
          with match show ?thesis by force
        next
          case 2
          then obtain j m' where j: "j \<le> length (drop m s)"
            "re_match (RE_CLOZE_NUM U) (drop j (drop m s)) = Some (m', N')" by blast
          then have "j + m \<le> length s" "re_match (RE_CLOZE_NUM U) (drop (j + m) s) = Some (m', N')"
            using m_le by (simp_all add: add.commute)
          then show ?thesis by blast
        qed
      qed
      moreover have "re_findall (RE_CLOZE_NUM U) s = N # re_findall (RE_CLOZE_NUM U) (drop m s)"
        using match m_pos Cons by (simp add: re_findall_Cons)
      ultimately show ?thesis using rest by simp
    qed
  qed
qed

lemma cloze_occurrences_as_text:
  "{N. \<exists>j m. j \<le> length s \<and> re_match (RE_CLOZE_NUM U) (drop j s) = Some (m, N)} =
   {N. cloze_number U N \<and> (\<exists>a b. s = a @ ustr ''{{c'' @ N @ ustr ''::'' @ b)}"
proof (intro set_eqI iffI)
  fix N assume "N \<in> {N. \<exists>j m. j \<le> length s \<and> re_match (RE_CLOZE_NUM U) (drop j s) = Some (m, N)}"
  then obtain j m where "j \<le> length s" "re_match (RE_CLOZE_NUM U) (drop j s) = Some (m, N)"
    by blast
  then obtain b where N: "cloze_number U N" and d: "drop j s = ustr ''{{c'' @ N @ ustr ''::'' @ b"
    using re_match_cloze_iff by blast
  have "s = take j s @ drop j s" by simp
  with d have "s = take j s @ ustr ''{{c'' @ N @ ustr ''::'' @ b" by simp
  with N show "N \<in> {N. cloze_number U N \<and> (\<exists>a b. s = a @ ustr ''{{c'' @ N @ ustr ''::'' @ b)}" by blast
next
  fix N assume "N \<in> {N. cloze_number U N \<and> (\<exists>a b. s = a @ ustr ''{{c'' @ N @ ustr ''::'' @ b)}"
  then obtain a b where N: "cloze_number U N" and s: "s = a @ ustr ''{{c'' @ N @ ustr ''::'' @ b"
    by blast
  have "drop (length a) s = ustr ''{{c'' @ N @ ustr ''::'' @ b" by (simp add: s)
  with N have "re_match (RE_CLOZE_NUM U) (drop (length a) s) = Some (length N + 5, N)"
    using re_match_cloze_iff by blast
  moreover have "length a \<le> length s" by (simp add: s)
  ultimately show "N \<in> {N. \<exists>j m. j \<le> length s \<and> re_match (RE_CLOZE_NUM U) (drop j s) = Some (m, N)}"
    by blast
qed

lemma count_cloze_numbers_card:
  "count_cloze_numbers U text =
     card {N. cloze_number U N \<and> (\<exists>a b. text = a @ ustr ''{{c'' @ N @ ustr ''::'' @ b)}"
  unfolding count_cloze_numbers_def
  by (simp only: List.card_set [symmetric] cloze_findall_occurrences cloze_occurrences_as_text)

lemma split_first_field:
  "sep \<notin> set a \<Longrightarrow> split sep (a @ sep # r) = a # split sep r"
  by (induction a) auto

text \<open>
  C9, as the specification has it, fails twice: the numbers are compared as they are
  written, so that \<^verbatim>\<open>{{c1::a}} {{c01::b}}\<close> counts two groups for the one number 1, and
  only the opening \<^verbatim>\<open>{{cN::\<close> is looked for, so that \<^verbatim>\<open>{{c1::\<close>, which is no cloze of the
  shape \<^verbatim>\<open>{{cN::...}}\<close>, counts one.
\<close>

theorem num_cards_counts_cloze_numbers_counterexample:
  "(case transform_note ascii_ucd (\<lambda>s. s)
           (1, ustr ''{{c1::a}} {{c01::b}}'' @ FIELD_SEP # ustr ''extra'', ustr ''tag'') [] of
      Inl e \<Rightarrow> None | Inr (n, refs) \<Rightarrow> Some (num_cards n)) = Some 2
   \<and> (case transform_note ascii_ucd (\<lambda>s. s)
           (2, ustr ''{{c1::'' @ FIELD_SEP # ustr ''extra'', ustr ''tag'') [] of
      Inl e \<Rightarrow> None | Inr (n, refs) \<Rightarrow> Some (num_cards n)) = Some 1"
  by code_simp

text \<open>
  C9, as the code has it. \<^verbatim>\<open>count_cloze_numbers\<close> of a text is the number of distinct
  digit strings \<open>N\<close>, non-empty runs of decimal digits compared as written, such that the
  opening \<^verbatim>\<open>{{cN::\<close> occurs in the text, however often each occurs and whatever follows
  it. A record whose fields string is a first field, a separator and the rest is
  transformed into a note, and the note's \<open>num_cards\<close> is this count on the first field
  as the query returned it, not on its sanitized form and not on the fields after it.
\<close>

theorem num_cards_counts_distinct_cloze_numbers:
  "count_cloze_numbers U text =
     card {N. cloze_number U N \<and> (\<exists>a b. text = a @ ustr ''{{c'' @ N @ ustr ''::'' @ b)}
   \<and> (FIELD_SEP \<notin> set raw_text \<longrightarrow>
        (\<exists>n refs. transform_note U charref_sub (nid, raw_text @ FIELD_SEP # rest, tags) all_media_refs
                     = Inr (n, refs)
           \<and> num_cards n =
               card {N. cloze_number U N \<and> (\<exists>a b. raw_text = a @ ustr ''{{c'' @ N @ ustr ''::'' @ b)}))"
proof (intro conjI impI)
  show "count_cloze_numbers U text =
     card {N. cloze_number U N \<and> (\<exists>a b. text = a @ ustr ''{{c'' @ N @ ustr ''::'' @ b)}"
    by (rule count_cloze_numbers_card)
next
  assume sep: "FIELD_SEP \<notin> set raw_text"
  let ?fields = "split FIELD_SEP (raw_text @ FIELD_SEP # rest)"
  obtain w ws where r: "split FIELD_SEP rest = w # ws"
    using split_nonempty [of FIELD_SEP rest] by (cases "split FIELD_SEP rest") auto
  have fields: "?fields = raw_text # w # ws"
    using sep by (simp add: split_first_field r)
  have t: "py_index ?fields IDX_TEXT = Inr raw_text"
    and e: "py_index ?fields IDX_EXTRA = Inr w"
    by (simp_all add: fields py_index_def IDX_TEXT_def IDX_EXTRA_def)
  show "\<exists>n refs. transform_note U charref_sub (nid, raw_text @ FIELD_SEP # rest, tags) all_media_refs
                     = Inr (n, refs)
           \<and> num_cards n =
               card {N. cloze_number U N \<and> (\<exists>a b. raw_text = a @ ustr ''{{c'' @ N @ ustr ''::'' @ b)}"
    by (simp add: transform_note.simps t e Let_def count_cloze_numbers_card)
qed

theorem num_cards_counts_distinct_cloze_numbers_witness:
  "(case transform_note ascii_ucd (\<lambda>s. s)
           (7, ustr ''{{c1::foo}} and {{c2::bar}} and {{c1::baz}}'' @ FIELD_SEP # ustr ''see {{c3::extra}}'',
            ustr ''tag'') [] of
      Inl e \<Rightarrow> None | Inr (n, refs) \<Rightarrow> Some (num_cards n)) = Some 2
   \<and> card {N. cloze_number ascii_ucd N
            \<and> (\<exists>a b. ustr ''{{c1::foo}} and {{c2::bar}} and {{c1::baz}}'' =
                       a @ ustr ''{{c'' @ N @ ustr ''::'' @ b)} = 2"
proof -
  let ?raw = "ustr ''{{c1::foo}} and {{c2::bar}} and {{c1::baz}}''"
  let ?rest = "ustr ''see {{c3::extra}}''"
  let ?S = "{N. cloze_number ascii_ucd N \<and> (\<exists>a b. ?raw = a @ ustr ''{{c'' @ N @ ustr ''::'' @ b)}"
  have sep: "FIELD_SEP \<notin> set ?raw"
    by code_simp
  have count: "count_cloze_numbers ascii_ucd ?raw = 2"
    by code_simp
  from num_cards_counts_distinct_cloze_numbers [of ascii_ucd ?raw ?raw "\<lambda>s. s" 7 ?rest "ustr ''tag''" "[]"] sep
  have card: "count_cloze_numbers ascii_ucd ?raw = card ?S"
    and "\<exists>n refs. transform_note ascii_ucd (\<lambda>s. s) (7, ?raw @ FIELD_SEP # ?rest, ustr ''tag'') [] = Inr (n, refs)
           \<and> num_cards n = card ?S"
    by blast+
  then obtain n refs where
    "transform_note ascii_ucd (\<lambda>s. s) (7, ?raw @ FIELD_SEP # ?rest, ustr ''tag'') [] = Inr (n, refs)"
    and "num_cards n = card ?S" by blast
  with card count show ?thesis by simp
qed

end
